theory Spec2Isabelle
  imports Main "HOL-Library.Sublist" "HOL-Library.AList" "HOL-Library.Multiset"
begin

section \<open>The S3 location synchronizer (S3LocationSyncRatchet)\<close>

text \<open>
  A shallow embedding of the class \<open>S3LocationSyncRatchet\<close>: its constructor and its
  methods \<open>copyObject\<close>, \<open>listObjects\<close>, \<open>compareSrcAndDst\<close> and \<open>startSyncing\<close>.

  Conventions of the embedding.
  \<^item> A JavaScript \<open>number\<close> that the code uses as a counter, a size or a time stamp is an
    \<open>int\<close>; fractional values, \<open>NaN\<close> and the infinities are outside the model.
  \<^item> A value that may be \<open>undefined\<close> at run time is an \<open>option\<close>, \<open>None\<close> being
    \<open>undefined\<close>.
  \<^item> A string is a \<open>char list\<close>.
  \<^item> A plain object used as a dictionary is the association list of its own properties,
    in insertion order. Its prototype is \<open>Object.prototype\<close>, which makes two names
    special: an assignment to \<open>__proto__\<close> changes the prototype and adds no own
    property, and an own property \<open>hasOwnProperty\<close> hides the method of that name.
    (\<open>Object.keys\<close> lists the keys that are array indices first, in ascending order;
    the model keeps the order of insertion, so that a list below is the code's up to the
    order of its elements.)
  \<^item> An exception is the left summand of a result, \<open>Inl\<close>; an asynchronous method takes
    the state of the outside world and returns the new one with its result.
  \<^item> Calls of \<open>Logger\<close> have no effect on results and are left out.
\<close>

subsection \<open>Data\<close>

type_synonym S3 = string

record S3Object =
  Key :: string
  ETag :: string
  Size :: int
  LastModified :: int

record S3LocationSyncRatchetConfig =
  srcS3 :: "S3 option"
  srcBucket :: "string option"
  srcPrefix :: "string option"
  dstS3 :: "S3 option"
  dstBucket :: "string option"
  dstPrefix :: "string option"
  maxNumThreads :: "int option"
  maxRetries :: "int option"

record BucketCmpResult =
  needCopy :: "S3Object list"
  existed :: "S3Object list"
  diff :: "S3Object list"

datatype error = TypeError | RequireError string | AWSError string

subsection \<open>The S3 client\<close>

text \<open>
  The requests the synchronizer builds. \<open>CopySource\<close> keeps the two strings that the code
  joins with a slash and passes through \<open>encodeURIComponent\<close>; \<open>Body\<close> keeps the client,
  bucket and key of the \<open>getObject\<close> request whose read stream is uploaded.
\<close>

record ListObjectsV2Request =
  Bucket :: "string option"
  Prefix :: "string option"
  ContinuationToken :: "string option"

record ListObjectsV2Output =
  Contents :: "S3Object list"
  IsTruncated :: bool
  NextContinuationToken :: "string option"

record CopyObjectRequest =
  CopySource :: "string option \<times> string"
  copy_Bucket :: "string option"
  copy_Key :: string

record PutObjectRequest =
  put_Bucket :: "string option"
  put_Key :: string
  Body :: "S3 \<times> string option \<times> string"
  ContentLength :: int

text \<open>
  The client is a parameter of the model: three operations over a state of the world
  \<open>'w\<close> of any type, each returning a rejection or a response, and the next state.
\<close>

record 'w S3Client =
  s3_listObjectsV2 :: "S3 \<Rightarrow> ListObjectsV2Request \<Rightarrow> 'w \<Rightarrow> (error + ListObjectsV2Output) \<times> 'w"
  s3_copyObject :: "S3 \<Rightarrow> CopyObjectRequest \<Rightarrow> 'w \<Rightarrow> (error + unit) \<times> 'w"
  s3_upload :: "S3 \<Rightarrow> PutObjectRequest \<Rightarrow> 'w \<Rightarrow> (error + unit) \<times> 'w"

subsection \<open>String.prototype.replace with a string pattern\<close>

text \<open>
  \<open>str.replace(searchValue, replaceValue)\<close> with two strings replaces the first
  occurrence of \<open>searchValue\<close>, wherever it stands, and expands in \<open>replaceValue\<close> the
  patterns \<open>$$\<close>, \<open>$&\<close>, \<open>$`\<close> and \<open>$'\<close>; there are no captures, so \<open>$n\<close> and \<open>$<\<close>
  stay as they are. An \<open>undefined\<close> argument is converted to the string \<open>undefined\<close>.
\<close>

definition ToString :: "string option \<Rightarrow> string" where
  "ToString v = (case v of None \<Rightarrow> ''undefined'' | Some s \<Rightarrow> s)"

fun indexOf :: "string \<Rightarrow> string \<Rightarrow> nat option" where
  "indexOf str searchValue =
     (if prefix searchValue str then Some 0
      else (case str of [] \<Rightarrow> None | _ # rest \<Rightarrow> map_option Suc (indexOf rest searchValue)))"

fun GetSubstitution :: "string \<Rightarrow> string \<Rightarrow> nat \<Rightarrow> string \<Rightarrow> string" where
  "GetSubstitution matched str position [] = []"
| "GetSubstitution matched str position [c] = [c]"
| "GetSubstitution matched str position (c # d # rest) =
     (if c = CHR ''$'' \<and> d = CHR ''$'' then CHR ''$'' # GetSubstitution matched str position rest
      else if c = CHR ''$'' \<and> d = CHR ''&'' then matched @ GetSubstitution matched str position rest
      else if c = CHR ''$'' \<and> d = CHR 0x60 then take position str @ GetSubstitution matched str position rest
      else if c = CHR ''$'' \<and> d = CHR 0x27 then
        drop (position + length matched) str @ GetSubstitution matched str position rest
      else c # GetSubstitution matched str position (d # rest))"

definition replace :: "string \<Rightarrow> string \<Rightarrow> string \<Rightarrow> string" where
  "replace str searchValue replaceValue =
     (case indexOf str searchValue of
        None \<Rightarrow> str
      | Some position \<Rightarrow>
          take position str @ GetSubstitution searchValue str position replaceValue
            @ drop (position + length searchValue) str)"

subsection \<open>The constructor\<close>

text \<open>
  Modelled from the spec: \<open>RequireRatchet.notNullOrUndefined\<close> is not among the sources;
  it raises when its argument is null or undefined, which is the configuration error of
  the spec's section 7.
\<close>

definition notNullOrUndefined :: "'a option \<Rightarrow> string \<Rightarrow> error + unit" where
  "notNullOrUndefined v name = (case v of None \<Rightarrow> Inl (RequireError name) | Some _ \<Rightarrow> Inr ())"

text \<open>\<open>!n\<close> for a number that may be undefined.\<close>

definition falsy :: "int option \<Rightarrow> bool" where
  "falsy n = (case n of None \<Rightarrow> True | Some v \<Rightarrow> v = 0)"

definition constructor :: "S3LocationSyncRatchetConfig option \<Rightarrow> error + S3LocationSyncRatchetConfig" where
  "constructor config =
     (case notNullOrUndefined config ''config'' of
        Inl e \<Rightarrow> Inl e
      | Inr _ \<Rightarrow>
          (case config of
             None \<Rightarrow> Inl TypeError
           | Some c \<Rightarrow>
               (let c1 = (if falsy (maxNumThreads c) then c\<lparr>maxNumThreads := Some 15\<rparr> else c);
                    c2 = (if falsy (maxRetries c1) then c1\<lparr>maxRetries := Some 5\<rparr> else c1)
                in Inr c2)))"

definition updateSrcPrefix :: "S3LocationSyncRatchetConfig \<Rightarrow> string \<Rightarrow> S3LocationSyncRatchetConfig" where
  "updateSrcPrefix c p = c\<lparr>srcPrefix := Some p\<rparr>"

definition updateDstPrefix :: "S3LocationSyncRatchetConfig \<Rightarrow> string \<Rightarrow> S3LocationSyncRatchetConfig" where
  "updateDstPrefix c p = c\<lparr>dstPrefix := Some p\<rparr>"

subsection \<open>copyObject\<close>

text \<open>
  The body of the \<open>try\<close> block: one attempt. Reading a method of a client that is
  undefined raises a \<open>TypeError\<close>, inside the block as well.
\<close>

definition copy_attempt ::
  "'w S3Client \<Rightarrow> S3LocationSyncRatchetConfig \<Rightarrow> string \<Rightarrow> string \<Rightarrow> int \<Rightarrow> bool \<Rightarrow> 'w
     \<Rightarrow> (error + unit) \<times> 'w" where
  "copy_attempt s3 c key dstKey sz express w =
     (if express then
        (case dstS3 c of
           None \<Rightarrow> (Inl TypeError, w)
         | Some dst \<Rightarrow>
             s3_copyObject s3 dst
               \<lparr>CopySource = (srcBucket c, key), copy_Bucket = dstBucket c, copy_Key = dstKey\<rparr> w)
      else
        (case srcS3 c of
           None \<Rightarrow> (Inl TypeError, w)
         | Some src \<Rightarrow>
             (case dstS3 c of
                None \<Rightarrow> (Inl TypeError, w)
              | Some dst \<Rightarrow>
                  s3_upload s3 dst
                    \<lparr>put_Bucket = dstBucket c, put_Key = dstKey,
                     Body = (src, srcBucket c, key), ContentLength = sz\<rparr> w)))"

text \<open>\<open>retries < this.config.maxRetries\<close>; a comparison with \<open>undefined\<close> is false.\<close>

definition retries_left :: "int \<Rightarrow> int option \<Rightarrow> bool" where
  "retries_left retries m = (case m of None \<Rightarrow> False | Some v \<Rightarrow> retries < v)"

text \<open>
  The \<open>while\<close> loop, with its two local variables as arguments; the \<open>catch\<close> clause
  swallows the error of the attempt and counts it.
\<close>

function copyObject_loop ::
  "'w S3Client \<Rightarrow> S3LocationSyncRatchetConfig \<Rightarrow> string \<Rightarrow> string \<Rightarrow> int \<Rightarrow> bool
     \<Rightarrow> bool \<Rightarrow> int \<Rightarrow> 'w \<Rightarrow> (bool \<times> int) \<times> 'w" where
  "copyObject_loop s3 c key dstKey sz express completedCopying retries w =
     (if \<not> completedCopying \<and> retries_left retries (maxRetries c) then
        (case copy_attempt s3 c key dstKey sz express w of
           (Inr _, w') \<Rightarrow> copyObject_loop s3 c key dstKey sz express True retries w'
         | (Inl err, w') \<Rightarrow> copyObject_loop s3 c key dstKey sz express completedCopying (retries + 1) w')
      else ((completedCopying, retries), w))"
  by pat_completeness auto
termination
  by (relation "measure (\<lambda>(s3, c, key, dstKey, sz, express, completedCopying, retries, w).
        if completedCopying then 0
        else (case maxRetries c of None \<Rightarrow> 0 | Some v \<Rightarrow> nat (v - retries) + 1))")
     (auto simp: retries_left_def split: option.splits)

declare copyObject_loop.simps [simp del]

definition copyObject ::
  "'w S3Client \<Rightarrow> S3LocationSyncRatchetConfig \<Rightarrow> string \<Rightarrow> int \<Rightarrow> bool \<Rightarrow> 'w \<Rightarrow> (error + unit) \<times> 'w" where
  "copyObject s3 c key sz express w =
     (let dstKey = replace key (ToString (srcPrefix c)) (ToString (dstPrefix c));
          (locals, w') = copyObject_loop s3 c key dstKey sz express False 0 w
      in (Inr (), w'))"

subsection \<open>listObjects\<close>

text \<open>
  The assignment \<open>rval[key] = value\<close> on the object \<open>rval\<close>, created as \<open>{}\<close>. Under
  the key \<open>__proto__\<close> it runs the setter that \<open>rval\<close> inherits: the value, an object,
  becomes the prototype of \<open>rval\<close>, and \<open>rval\<close> gets no own property. Under any other
  key it adds or overwrites an own property. The prototype that \<open>rval\<close> may get this way
  is an object with the four own properties \<open>Key\<close>, \<open>LastModified\<close>, \<open>ETag\<close> and
  \<open>Size\<close>, itself with the prototype \<open>Object.prototype\<close>: every name the code reads
  through the prototype (\<open>hasOwnProperty\<close>, the setter of \<open>__proto__\<close>) is found as
  before, so that the model need not keep the prototype.
\<close>

definition assign :: "string \<Rightarrow> S3Object \<Rightarrow> (string \<times> S3Object) list \<Rightarrow> (string \<times> S3Object) list" where
  "assign key v rval = (if key = ''__proto__'' then rval else AList.update key v rval)"

text \<open>
  The \<open>while (more)\<close> loop. It runs until the store answers a page that is not truncated,
  which no code of the synchronizer bounds: the loop is a partial function, \<open>None\<close> when it
  never returns. A rejected call leaves the loop as an exception, and so does the read of
  \<open>listObjectsV2\<close> on a client that is undefined.
\<close>

partial_function (option) listObjects_loop ::
  "'w S3Client \<Rightarrow> S3 option \<Rightarrow> ListObjectsV2Request \<Rightarrow> (string \<times> S3Object) list \<Rightarrow> 'w
     \<Rightarrow> ((error + (string \<times> S3Object) list) \<times> 'w) option" where
  "listObjects_loop s3c s3 params rval w =
     (case s3 of
        None \<Rightarrow> Some (Inl TypeError, w)
      | Some h \<Rightarrow>
          (case s3_listObjectsV2 s3c h params w of
             (Inl e, w') \<Rightarrow> Some (Inl e, w')
           | (Inr response, w') \<Rightarrow>
               (let rval' = fold (\<lambda>obj. assign (Key obj)
                                \<lparr>Key = Key obj, ETag = ETag obj, Size = Size obj,
                                 LastModified = LastModified obj\<rparr>) (Contents response) rval
                in if IsTruncated response
                   then listObjects_loop s3c s3
                          (params\<lparr>ContinuationToken := NextContinuationToken response\<rparr>) rval' w'
                   else Some (Inr rval', w'))))"

declare listObjects_loop.simps [code]

definition listObjects ::
  "'w S3Client \<Rightarrow> string option \<Rightarrow> string option \<Rightarrow> S3 option \<Rightarrow> 'w
     \<Rightarrow> ((error + (string \<times> S3Object) list) \<times> 'w) option" where
  "listObjects s3c bucket pfx s3 w =
     listObjects_loop s3c s3 \<lparr>Bucket = bucket, Prefix = pfx, ContinuationToken = None\<rparr> [] w"

subsection \<open>Running a function over a list\<close>

text \<open>
  Modelled from the spec: \<open>PromiseRatchet.runBoundedParallelSingleParam\<close> is not among the
  sources. By the spec's sections 4.4 and 5 it calls the function once on every element of
  the list, with a bound on the calls in flight that does not change what is called. The
  model runs the calls one after the other, in the order of the list, threading the state
  the calls share; a call that raises ends the run with its error.
\<close>

fun runBoundedParallelSingleParam ::
  "('a \<Rightarrow> 's \<Rightarrow> (error + unit) \<times> 's) \<Rightarrow> 'a list \<Rightarrow> 's \<Rightarrow> (error + unit) \<times> 's" where
  "runBoundedParallelSingleParam promiseFn [] s = (Inr (), s)"
| "runBoundedParallelSingleParam promiseFn (x # xs) s =
     (case promiseFn x s of
        (Inl e, s') \<Rightarrow> (Inl e, s')
      | (Inr _, s') \<Rightarrow> runBoundedParallelSingleParam promiseFn xs s')"

subsection \<open>compareSrcAndDst\<close>

text \<open>
  The call \<open>obj.hasOwnProperty(key)\<close> on a listing. The method is read from the object
  itself: when a key of the listing is \<open>hasOwnProperty\<close>, the own property under that
  key, an object, is what the code calls, and the call raises a \<open>TypeError\<close>.
\<close>

definition hasOwnProperty :: "(string \<times> S3Object) list \<Rightarrow> string \<Rightarrow> error + bool" where
  "hasOwnProperty obj key =
     (case map_of obj ''hasOwnProperty'' of
        Some v \<Rightarrow> Inl TypeError
      | None \<Rightarrow> Inr (map_of obj key \<noteq> None))"

text \<open>
  The function that \<open>compareSrcAndDst\<close> runs on every key of the source listing; the state
  it shares between its calls is the result \<open>rval\<close>. The key comes from
  \<open>Object.keys(srcObjs)\<close>, so that \<open>srcObjs[key]\<close> is an own property; the model gives
  the other case an error, and \<open>compare_keys_defined\<close> below shows that it does not
  arise.
\<close>

definition compare_key ::
  "S3LocationSyncRatchetConfig \<Rightarrow> (string \<times> S3Object) list \<Rightarrow> (string \<times> S3Object) list \<Rightarrow> string
     \<Rightarrow> BucketCmpResult \<Rightarrow> (error + unit) \<times> BucketCmpResult" where
  "compare_key c srcObjs dstObjs key rval =
     (case map_of srcObjs key of
        None \<Rightarrow> (Inl TypeError, rval)
      | Some sObj \<Rightarrow>
          (let dstKey = replace key (ToString (srcPrefix c)) (ToString (dstPrefix c)) in
           case hasOwnProperty dstObjs dstKey of
             Inl e \<Rightarrow> (Inl e, rval)
           | Inr own \<Rightarrow>
               (case (if own then map_of dstObjs dstKey else None) of
                  None \<Rightarrow> (Inr (), rval\<lparr>needCopy := needCopy rval @ [sObj]\<rparr>)
                | Some dObj \<Rightarrow>
                    if Size sObj \<noteq> Size dObj then (Inr (), rval\<lparr>diff := diff rval @ [sObj]\<rparr>)
                    else if LastModified sObj \<le> LastModified dObj
                      then (Inr (), rval\<lparr>existed := existed rval @ [sObj]\<rparr>)
                    else (Inr (), rval\<lparr>diff := diff rval @ [sObj]\<rparr>))))"

text \<open>
  The two listings are started together and awaited source first. The model runs the
  source listing to its end and then the destination listing, where the code lets their
  calls alternate; it raises the errors in the order of the two \<open>await\<close>s. The order
  of the listing calls is the model's only, and no property below speaks of it.
\<close>

definition compareSrcAndDst ::
  "'w S3Client \<Rightarrow> S3LocationSyncRatchetConfig \<Rightarrow> 'w \<Rightarrow> ((error + BucketCmpResult) \<times> 'w) option" where
  "compareSrcAndDst s3c c w =
     (case listObjects s3c (srcBucket c) (srcPrefix c) (srcS3 c) w of
        None \<Rightarrow> None
      | Some (getSrc, w1) \<Rightarrow>
          (case listObjects s3c (dstBucket c) (dstPrefix c) (dstS3 c) w1 of
             None \<Rightarrow> None
           | Some (getDst, w2) \<Rightarrow>
               (case getSrc of
                  Inl e \<Rightarrow> Some (Inl e, w2)
                | Inr srcObjs \<Rightarrow>
                    (case getDst of
                       Inl e \<Rightarrow> Some (Inl e, w2)
                     | Inr dstObjs \<Rightarrow>
                         (case runBoundedParallelSingleParam (compare_key c srcObjs dstObjs)
                                 (map fst srcObjs) \<lparr>needCopy = [], existed = [], diff = []\<rparr> of
                            (Inl e, rval) \<Rightarrow> Some (Inl e, w2)
                          | (Inr _, rval) \<Rightarrow> Some (Inr rval, w2))))))"

subsection \<open>startSyncing\<close>

text \<open>The local function \<open>cp\<close>: a copy by upload, since it leaves \<open>express\<close> at its default.\<close>

definition cp :: "'w S3Client \<Rightarrow> S3LocationSyncRatchetConfig \<Rightarrow> S3Object \<Rightarrow> 'w \<Rightarrow> (error + unit) \<times> 'w" where
  "cp s3c c obj w = copyObject s3c c (Key obj) (Size obj) False w"

definition startSyncing ::
  "'w S3Client \<Rightarrow> S3LocationSyncRatchetConfig \<Rightarrow> 'w \<Rightarrow> ((error + bool) \<times> 'w) option" where
  "startSyncing s3c c w =
     (case compareSrcAndDst s3c c w of
        None \<Rightarrow> None
      | Some (Inl e, w1) \<Rightarrow> Some (Inl e, w1)
      | Some (Inr cmpResult, w1) \<Rightarrow>
          if length (needCopy cmpResult) > 0 \<or> length (diff cmpResult) > 0 then
            (case runBoundedParallelSingleParam (cp s3c c) (needCopy cmpResult) w1 of
               (Inl e, w2) \<Rightarrow> Some (Inl e, w2)
             | (Inr _, w2) \<Rightarrow>
                 (case runBoundedParallelSingleParam (cp s3c c) (diff cmpResult) w2 of
                    (Inl e, w3) \<Rightarrow> Some (Inl e, w3)
                  | (Inr _, w3) \<Rightarrow>
                      (case compareSrcAndDst s3c c w3 of
                         None \<Rightarrow> None
                       | Some (Inl e, w4) \<Rightarrow> Some (Inl e, w4)
                       | Some (Inr cmpResult', w4) \<Rightarrow>
                           Some (Inr (length (needCopy cmpResult') = 0 \<and> length (diff cmpResult') = 0), w4))))
          else Some (Inr (length (needCopy cmpResult) = 0 \<and> length (diff cmpResult) = 0), w1))"

subsection \<open>Recording the calls of the client\<close>

text \<open>
  To speak of the calls a method makes, a client can be wrapped so that the state of the
  world carries the list of the calls made so far, each with its outcome (\<open>True\<close> for a
  call that was not rejected).
\<close>

datatype s3_call =
    ListObjectsV2Call S3 ListObjectsV2Request
  | CopyObjectCall S3 CopyObjectRequest
  | UploadCall S3 PutObjectRequest

definition recording :: "'w S3Client \<Rightarrow> ('w \<times> (s3_call \<times> bool) list) S3Client" where
  "recording s3c =
     \<lparr>s3_listObjectsV2 = (\<lambda>h req (w, calls).
         case s3_listObjectsV2 s3c h req w of
           (r, w') \<Rightarrow> (r, (w', calls @ [(ListObjectsV2Call h req, \<not> isl r)]))),
      s3_copyObject = (\<lambda>h req (w, calls).
         case s3_copyObject s3c h req w of
           (r, w') \<Rightarrow> (r, (w', calls @ [(CopyObjectCall h req, \<not> isl r)]))),
      s3_upload = (\<lambda>h req (w, calls).
         case s3_upload s3c h req w of
           (r, w') \<Rightarrow> (r, (w', calls @ [(UploadCall h req, \<not> isl r)])))\<rparr>"

subsection \<open>A reference object store\<close>

text \<open>
  Modelled from the spec: the object store behind the client (the AWS SDK and S3) is not
  code of this repository. This store has the operations of the spec's section 6: a
  paginated listing of the objects under a prefix, a server-side copy and an upload from a
  read stream. It holds, for every bucket name, the objects of the bucket by key, and a
  clock that stamps every write. Which calls it rejects is given from outside
  (\<open>rejects\<close>, by the number of calls served so far), so that every pattern of failures is
  a state of this store. A continuation token is a string whose length is the offset of the
  next page. All clients reach the same buckets.
\<close>

record store =
  buckets :: "string \<Rightarrow> (string \<times> S3Object) list"
  now :: int
  served :: nat
  rejects :: "nat \<Rightarrow> bool"
  page_size :: nat

definition tick :: "store \<Rightarrow> store" where
  "tick w = w\<lparr>served := served w + 1, now := now w + 1\<rparr>"

definition under_prefix :: "string option \<Rightarrow> (string \<times> S3Object) list \<Rightarrow> S3Object list" where
  "under_prefix pfx objs =
     map (\<lambda>(k, obj). obj\<lparr>Key := k\<rparr>)
       (filter (\<lambda>(k, obj). case pfx of None \<Rightarrow> True | Some p \<Rightarrow> prefix p k) objs)"

definition store_listObjectsV2 ::
  "S3 \<Rightarrow> ListObjectsV2Request \<Rightarrow> store \<Rightarrow> (error + ListObjectsV2Output) \<times> store" where
  "store_listObjectsV2 h req w =
     (if rejects w (served w) then (Inl (AWSError ''Rejected''), tick w)
      else (case Bucket req of
              None \<Rightarrow> (Inl (AWSError ''MissingRequiredParameter''), tick w)
            | Some b \<Rightarrow>
                (let items = under_prefix (Prefix req) (buckets w b);
                     offset = (case ContinuationToken req of None \<Rightarrow> 0 | Some t \<Rightarrow> length t);
                     next = offset + max 1 (page_size w)
                 in (Inr \<lparr>Contents = take (max 1 (page_size w)) (drop offset items),
                          IsTruncated = (next < length items),
                          NextContinuationToken =
                            (if next < length items then Some (replicate next (CHR ''+'')) else None)\<rparr>,
                     tick w))))"

definition store_put :: "string \<Rightarrow> string \<Rightarrow> S3Object \<Rightarrow> store \<Rightarrow> store" where
  "store_put b k src w =
     w\<lparr>buckets := (buckets w)
          (b := AList.update k \<lparr>Key = k, ETag = ETag src, Size = Size src, LastModified = now w\<rparr>
                  (buckets w b))\<rparr>"

definition store_copyObject ::
  "S3 \<Rightarrow> CopyObjectRequest \<Rightarrow> store \<Rightarrow> (error + unit) \<times> store" where
  "store_copyObject h req w =
     (if rejects w (served w) then (Inl (AWSError ''Rejected''), tick w)
      else (case (fst (CopySource req), copy_Bucket req) of
              (Some sb, Some b) \<Rightarrow>
                (case map_of (buckets w sb) (snd (CopySource req)) of
                   None \<Rightarrow> (Inl (AWSError ''NoSuchKey''), tick w)
                 | Some src \<Rightarrow> (Inr (), tick (store_put b (copy_Key req) src w)))
            | _ \<Rightarrow> (Inl (AWSError ''MissingRequiredParameter''), tick w)))"

definition store_upload ::
  "S3 \<Rightarrow> PutObjectRequest \<Rightarrow> store \<Rightarrow> (error + unit) \<times> store" where
  "store_upload h req w =
     (if rejects w (served w) then (Inl (AWSError ''Rejected''), tick w)
      else (case (fst (snd (Body req)), put_Bucket req) of
              (Some sb, Some b) \<Rightarrow>
                (case map_of (buckets w sb) (snd (snd (Body req))) of
                   None \<Rightarrow> (Inl (AWSError ''NoSuchKey''), tick w)
                 | Some src \<Rightarrow>
                     if ContentLength req \<noteq> Size src then (Inl (AWSError ''IncompleteBody''), tick w)
                     else (Inr (), tick (store_put b (put_Key req) src w)))
            | _ \<Rightarrow> (Inl (AWSError ''MissingRequiredParameter''), tick w)))"

definition store_client :: "store S3Client" where
  "store_client =
     \<lparr>s3_listObjectsV2 = store_listObjectsV2, s3_copyObject = store_copyObject,
      s3_upload = store_upload\<rparr>"

subsection \<open>Notions used to state the properties\<close>

text \<open>
  The classification of the spec's section 4.2, in the spec's words: steps 2 to 5 for a
  source object and the destination object found under its translated key, if any.
\<close>

datatype classification = NeedsCopy | Conflicting | Unchanged

definition classify :: "S3Object \<Rightarrow> S3Object option \<Rightarrow> classification" where
  "classify source dest =
     (case dest of
        None \<Rightarrow> NeedsCopy
      | Some d \<Rightarrow>
          if Size source \<noteq> Size d then Conflicting
          else if LastModified source \<le> LastModified d then Unchanged
          else Conflicting)"

text \<open>The source objects of a listing that \<open>classify\<close> puts in a given class, in order.\<close>

definition classified ::
  "S3LocationSyncRatchetConfig \<Rightarrow> classification \<Rightarrow> (string \<times> S3Object) list
     \<Rightarrow> (string \<times> S3Object) list \<Rightarrow> S3Object list" where
  "classified c cls srcObjs dstObjs =
     map snd (filter (\<lambda>(k, s).
        classify s (map_of dstObjs (replace k (ToString (srcPrefix c)) (ToString (dstPrefix c)))) = cls)
        srcObjs)"

text \<open>
  The pages a listing fetches from a client: \<open>fetches s3c h params w pages r w'\<close> says that,
  asked first with \<open>params\<close> in the world \<open>w\<close> and then with the continuation token of each
  truncated page, the store answered \<open>pages\<close> and then either reported no further page
  (\<open>r = None\<close>, the last of \<open>pages\<close> is not truncated) or rejected the next call with the
  error \<open>e\<close> (\<open>r = Some e\<close>), leaving the world \<open>w'\<close>.
\<close>

inductive fetches ::
  "'w S3Client \<Rightarrow> S3 \<Rightarrow> ListObjectsV2Request \<Rightarrow> 'w \<Rightarrow> ListObjectsV2Output list
     \<Rightarrow> error option \<Rightarrow> 'w \<Rightarrow> bool"
  for s3c :: "'w S3Client" and h :: S3 where
    last_page:
      "s3_listObjectsV2 s3c h params w = (Inr response, w') \<Longrightarrow> \<not> IsTruncated response \<Longrightarrow>
       fetches s3c h params w [response] None w'"
  | rejected:
      "s3_listObjectsV2 s3c h params w = (Inl e, w') \<Longrightarrow> fetches s3c h params w [] (Some e) w'"
  | next_page:
      "s3_listObjectsV2 s3c h params w = (Inr response, w1) \<Longrightarrow> IsTruncated response \<Longrightarrow>
       fetches s3c h (params\<lparr>ContinuationToken := NextContinuationToken response\<rparr>) w1 pages r w' \<Longrightarrow>
       fetches s3c h params w (response # pages) r w'"

text \<open>
  The mapping that the assignments of \<open>listObjects\<close> make of \<open>rval\<close> over the items of the
  given pages, page after page.
\<close>

definition entries ::
  "ListObjectsV2Output list \<Rightarrow> (string \<times> S3Object) list \<Rightarrow> (string \<times> S3Object) list" where
  "entries pages rval =
     fold (\<lambda>obj. assign (Key obj)
             \<lparr>Key = Key obj, ETag = ETag obj, Size = Size obj, LastModified = LastModified obj\<rparr>)
       (concat (map Contents pages)) rval"

text \<open>
  The key translation of the spec's section 4.2, in the spec's words: the key with the
  source prefix replaced by the destination prefix.
\<close>

definition keyTranslate :: "string \<Rightarrow> string \<Rightarrow> string \<Rightarrow> string" where
  "keyTranslate sp dp k = dp @ drop (length sp) k"

text \<open>
  The call of the client that one attempt of \<open>copyObject\<close> makes, if it reaches the client,
  and the record of a sequence of attempts with the given outcomes.
\<close>

definition attempt_call ::
  "S3LocationSyncRatchetConfig \<Rightarrow> string \<Rightarrow> string \<Rightarrow> int \<Rightarrow> bool \<Rightarrow> s3_call option" where
  "attempt_call c key dstKey sz express =
     (if express then
        (case dstS3 c of
           None \<Rightarrow> None
         | Some dst \<Rightarrow>
             Some (CopyObjectCall dst
               \<lparr>CopySource = (srcBucket c, key), copy_Bucket = dstBucket c, copy_Key = dstKey\<rparr>))
      else
        (case (srcS3 c, dstS3 c) of
           (Some src, Some dst) \<Rightarrow>
             Some (UploadCall dst
               \<lparr>put_Bucket = dstBucket c, put_Key = dstKey,
                Body = (src, srcBucket c, key), ContentLength = sz\<rparr>)
         | _ \<Rightarrow> None))"

definition recorded :: "s3_call option \<Rightarrow> bool list \<Rightarrow> (s3_call \<times> bool) list" where
  "recorded a oks = (case a of None \<Rightarrow> [] | Some x \<Rightarrow> map (Pair x) oks)"

definition is_express :: "s3_call \<Rightarrow> bool" where
  "is_express a = (case a of CopyObjectCall _ _ \<Rightarrow> True | _ \<Rightarrow> False)"

definition is_listing :: "s3_call \<Rightarrow> bool" where
  "is_listing a = (case a of ListObjectsV2Call _ _ \<Rightarrow> True | _ \<Rightarrow> False)"

text \<open>The world after the copying phase of \<open>startSyncing\<close>, entered with the result \<open>cmp\<close>.\<close>

definition copied ::
  "'w S3Client \<Rightarrow> S3LocationSyncRatchetConfig \<Rightarrow> BucketCmpResult \<Rightarrow> 'w \<Rightarrow> 'w" where
  "copied s3c c cmp w =
     snd (runBoundedParallelSingleParam (cp s3c c) (diff cmp)
            (snd (runBoundedParallelSingleParam (cp s3c c) (needCopy cmp) w)))"

text \<open>
  On the reference store: the mapping that \<open>listObjects\<close> builds from the objects of a
  bucket, the keys that the source listing of a run reports, and the worlds of \<open>n\<close> runs in
  a row (the world each run starts in, and the world the last one leaves).
\<close>

definition listed :: "string option \<Rightarrow> (string \<times> S3Object) list \<Rightarrow> (string \<times> S3Object) list" where
  "listed pfx objs =
     fold (\<lambda>obj. assign (Key obj)
             \<lparr>Key = Key obj, ETag = ETag obj, Size = Size obj, LastModified = LastModified obj\<rparr>)
       (under_prefix pfx objs) []"

definition source_keys :: "S3LocationSyncRatchetConfig \<Rightarrow> store \<Rightarrow> string list" where
  "source_keys c w =
     (case srcBucket c of
        None \<Rightarrow> []
      | Some sb \<Rightarrow> map Key (under_prefix (srcPrefix c) (buckets w sb)))"

fun sync_runs :: "S3LocationSyncRatchetConfig \<Rightarrow> nat \<Rightarrow> store \<Rightarrow> store list" where
  "sync_runs c 0 w = [w]"
| "sync_runs c (Suc n) w =
     w # (case startSyncing store_client c w of None \<Rightarrow> [] | Some (res, w') \<Rightarrow> sync_runs c n w')"

text \<open>What no operation of the store changes, and what it may only advance.\<close>

definition same_setup :: "store \<Rightarrow> store \<Rightarrow> bool" where
  "same_setup w w' \<longleftrightarrow>
     rejects w' = rejects w \<and> page_size w' = page_size w \<and> now w \<le> now w' \<and> served w \<le> served w'"

text \<open>
  \<open>wrote_only db K w w'\<close>: from \<open>w\<close> to \<open>w'\<close> nothing was written but, in the bucket \<open>db\<close>,
  objects under keys of \<open>K\<close>. Every other bucket holds the same list of objects, and in
  every bucket the objects under the other keys are the same, in the same order.
\<close>

definition wrote_only :: "string option \<Rightarrow> string set \<Rightarrow> store \<Rightarrow> store \<Rightarrow> bool" where
  "wrote_only db K w w' \<longleftrightarrow>
     same_setup w w' \<and>
     (\<forall>b. db \<noteq> Some b \<longrightarrow> buckets w' b = buckets w b) \<and>
     (\<forall>b P. (\<forall>k \<in> K. \<not> P k) \<longrightarrow>
        filter (\<lambda>(k, obj). P k) (buckets w' b) = filter (\<lambda>(k, obj). P k) (buckets w b)) \<and>
     (\<forall>b. distinct (map fst (buckets w b)) \<longrightarrow> distinct (map fst (buckets w' b)))"

text \<open>
  \<open>in_sync sp dp S D\<close>: every object of the source bucket \<open>S\<close> that a listing under the
  prefix \<open>sp\<close> holds has, under its translated key in the destination bucket \<open>D\<close>, an
  object that the spec's rule classifies as unchanged.
\<close>

definition in_sync ::
  "string \<Rightarrow> string \<Rightarrow> (string \<times> S3Object) list \<Rightarrow> (string \<times> S3Object) list \<Rightarrow> bool" where
  "in_sync sp dp S D \<longleftrightarrow>
     (\<forall>(k, obj) \<in> set S. prefix sp k \<and> k \<noteq> ''__proto__'' \<longrightarrow>
        classify obj (map_of D (replace k sp dp)) = Unchanged)"

text \<open>
  \<open>ordinary_keys sp dp S D\<close>: the two names that a plain object treats specially stay out
  of the way of a run. No key of a listing of \<open>S\<close> under \<open>sp\<close> is translated to
  \<open>__proto__\<close> or to \<open>hasOwnProperty\<close>, and a listing of \<open>D\<close> under \<open>dp\<close> holds no key
  \<open>hasOwnProperty\<close>.
\<close>

definition ordinary_keys ::
  "string \<Rightarrow> string \<Rightarrow> (string \<times> S3Object) list \<Rightarrow> (string \<times> S3Object) list \<Rightarrow> bool" where
  "ordinary_keys sp dp S D \<longleftrightarrow>
     (\<forall>(k, obj) \<in> set S. prefix sp k \<and> k \<noteq> ''__proto__'' \<longrightarrow>
        replace k sp dp \<noteq> ''__proto__'' \<and> replace k sp dp \<noteq> ''hasOwnProperty'') \<and>
     (prefix dp ''hasOwnProperty'' \<longrightarrow> map_of D ''hasOwnProperty'' = None)"

subsection \<open>An example\<close>

definition example_config :: S3LocationSyncRatchetConfig where
  "example_config =
     \<lparr>srcS3 = Some ''src-client'', srcBucket = Some ''source'', srcPrefix = Some ''a/'',
      dstS3 = Some ''dst-client'', dstBucket = Some ''backup'', dstPrefix = Some ''b/'',
      maxNumThreads = Some 15, maxRetries = Some 5\<rparr>"

definition example_objects :: "string \<Rightarrow> (string \<times> S3Object) list" where
  "example_objects b =
     (if b = ''source'' then
        [(''a/x'', \<lparr>Key = ''a/x'', ETag = ''e1'', Size = 10, LastModified = 3\<rparr>),
         (''a/y'', \<lparr>Key = ''a/y'', ETag = ''e2'', Size = 20, LastModified = 4\<rparr>),
         (''c/z'', \<lparr>Key = ''c/z'', ETag = ''e3'', Size = 30, LastModified = 5\<rparr>),
         (''a/w'', \<lparr>Key = ''a/w'', ETag = ''e4'', Size = 5, LastModified = 2\<rparr>)]
      else if b = ''backup'' then
        [(''b/old'', \<lparr>Key = ''b/old'', ETag = ''e0'', Size = 7, LastModified = 1\<rparr>),
         (''b/y'', \<lparr>Key = ''b/y'', ETag = ''e5'', Size = 20, LastModified = 2\<rparr>),
         (''b/w'', \<lparr>Key = ''b/w'', ETag = ''e4'', Size = 5, LastModified = 9\<rparr>)]
      else [])"

definition never :: "nat \<Rightarrow> bool" where
  "never n = False"

definition always :: "nat \<Rightarrow> bool" where
  "always n = True"

definition on_second :: "nat \<Rightarrow> bool" where
  "on_second n = (n = 1)"

definition first_two :: "nat \<Rightarrow> bool" where
  "first_two n = (n < 2)"

definition uploads_fail :: "nat \<Rightarrow> bool" where
  "uploads_fail n = (4 \<le> n \<and> n < 14)"

definition example_store :: store where
  "example_store =
     \<lparr>buckets = example_objects, now = 100, served = 0, rejects = never, page_size = 2\<rparr>"

text \<open>
  A store with an object under each of the two names that a plain object treats
  specially, and a store for a destination prefix with a dollar pattern: its destination
  bucket holds an object under the prefix that is the translation of no source key by the
  spec's \<open>keyTranslate\<close>.
\<close>

definition special_objects :: "string \<Rightarrow> (string \<times> S3Object) list" where
  "special_objects b =
     (if b = ''source'' then
        [(''__proto__'', \<lparr>Key = ''__proto__'', ETag = ''e6'', Size = 8, LastModified = 6\<rparr>),
         (''a/x'', \<lparr>Key = ''a/x'', ETag = ''e1'', Size = 10, LastModified = 3\<rparr>)]
      else if b = ''backup'' then
        [(''hasOwnProperty'', \<lparr>Key = ''hasOwnProperty'', ETag = ''e7'', Size = 9, LastModified = 7\<rparr>)]
      else [])"

definition special_store :: store where
  "special_store =
     \<lparr>buckets = special_objects, now = 100, served = 0, rejects = never, page_size = 1\<rparr>"

definition dollar_objects :: "string \<Rightarrow> (string \<times> S3Object) list" where
  "dollar_objects b =
     (if b = ''source'' then
        [(''a/$y'', \<lparr>Key = ''a/$y'', ETag = ''e1'', Size = 10, LastModified = 3\<rparr>)]
      else if b = ''backup'' then
        [(''x$$y'', \<lparr>Key = ''x$$y'', ETag = ''e0'', Size = 7, LastModified = 1\<rparr>)]
      else [])"

definition dollar_store :: store where
  "dollar_store =
     \<lparr>buckets = dollar_objects, now = 100, served = 0, rejects = never, page_size = 2\<rparr>"

section \<open>Properties\<close>

subsection \<open>The listing\<close>

lemma entries_Nil [simp]: "entries [] rval = rval"
  by (simp add: entries_def)

lemma entries_Cons:
  "entries (p # pages) rval =
     entries pages (fold (\<lambda>obj. assign (Key obj)
        \<lparr>Key = Key obj, ETag = ETag obj, Size = Size obj, LastModified = LastModified obj\<rparr>)
        (Contents p) rval)"
  by (simp add: entries_def)

lemma fetches_listObjects_loop:
  "fetches s3c h params w pages r w' \<Longrightarrow>
   listObjects_loop s3c (Some h) params rval w =
     Some (case r of None \<Rightarrow> Inr (entries pages rval) | Some e \<Rightarrow> Inl e, w')"
proof (induction arbitrary: rval rule: fetches.induct)
  case (last_page params w response w')
  then show ?case
    by (subst listObjects_loop.simps) (simp add: entries_Cons)
next
  case (rejected params w e w')
  then show ?case
    by (subst listObjects_loop.simps) simp
next
  case (next_page params w response w1 pages r w')
  show ?case
    by (subst listObjects_loop.simps)
       (simp add: next_page.hyps next_page.IH entries_Cons Let_def split: option.split)
qed

lemma listObjects_loop_fetches:
  assumes "listObjects_loop s3c s3 params rval w = Some y"
  shows "s3 = Some h \<longrightarrow> (\<exists>pages r. fetches s3c h params w pages r (snd y) \<and>
      fst y = (case r of None \<Rightarrow> Inr (entries pages rval) | Some e \<Rightarrow> Inl e))"
  using assms
proof (induct s3c s3 params rval w y rule: listObjects_loop.raw_induct)
  case (1 listObjects_loop' s3c s3 params rval w y)
  show ?case
  proof
    assume s3: "s3 = Some h"
    obtain res w1 where call: "s3_listObjectsV2 s3c h params w = (res, w1)"
      by (cases "s3_listObjectsV2 s3c h params w")
    show "\<exists>pages r. fetches s3c h params w pages r (snd y) \<and>
      fst y = (case r of None \<Rightarrow> Inr (entries pages rval) | Some e \<Rightarrow> Inl e)"
    proof (cases res)
      case (Inl e)
      with 1(2) s3 call have "y = (Inl e, w1)" by simp
      moreover have "fetches s3c h params w [] (Some e) w1"
        using call Inl by (simp add: fetches.rejected)
      ultimately show ?thesis by force
    next
      case (Inr response)
      show ?thesis
      proof (cases "IsTruncated response")
        case False
        with 1(2) s3 call Inr have y: "y = (Inr (entries [response] rval), w1)"
          by (simp add: entries_Cons Let_def)
        have "fetches s3c h params w [response] None w1"
          using call Inr False by (simp add: fetches.last_page)
        with y show ?thesis by force
      next
        case True
        let ?rval' = "entries [response] rval"
        let ?params' = "params\<lparr>ContinuationToken := NextContinuationToken response\<rparr>"
        from 1(2) s3 call Inr True
        have rec: "listObjects_loop' s3c s3 ?params' ?rval' w1 = Some y"
          by (simp add: entries_Cons Let_def)
        have "s3 = Some h \<longrightarrow> (\<exists>pages r. fetches s3c h ?params' w1 pages r (snd y) \<and>
            fst y = (case r of None \<Rightarrow> Inr (entries pages ?rval') | Some e \<Rightarrow> Inl e))"
        proof (rule 1(1) [OF rec])
          have "listObjects_loop s3c s3 params rval w = listObjects_loop s3c s3 ?params' ?rval' w1"
            by (subst listObjects_loop.simps) (simp add: s3 call Inr True entries_Cons Let_def)
          with 1(3) show "listObjects_loop s3c s3 ?params' ?rval' w1 = Some y"
            by simp
        qed
        with s3 obtain pages r where
          f: "fetches s3c h ?params' w1 pages r (snd y)" and
          y: "fst y = (case r of None \<Rightarrow> Inr (entries pages ?rval') | Some e \<Rightarrow> Inl e)"
          by blast
        have "fetches s3c h params w (response # pages) r (snd y)"
          using call Inr True f by (simp add: fetches.next_page)
        moreover have "entries pages ?rval' = entries (response # pages) rval"
          by (simp add: entries_def)
        ultimately show ?thesis using y by metis
      qed
    qed
  qed
qed (rule assms)

text \<open>
  Writing the items of a page keeps what the mapping has and adds what it lacks, but for
  an item under the key \<open>__proto__\<close>, which leaves the mapping as it is.
\<close>

lemma update_keeps_entry:
  "\<exists>v. map_of m k = Some v \<and> Key v = k \<Longrightarrow>
   \<exists>v. map_of (assign (Key obj)
          \<lparr>Key = Key obj, ETag = ETag obj, Size = Size obj, LastModified = LastModified obj\<rparr> m) k
        = Some v \<and> Key v = k"
  by (auto simp: assign_def update_conv')

lemma fold_update_keeps_entry:
  "\<exists>v. map_of m k = Some v \<and> Key v = k \<Longrightarrow>
   \<exists>v. map_of (fold (\<lambda>obj. assign (Key obj)
          \<lparr>Key = Key obj, ETag = ETag obj, Size = Size obj, LastModified = LastModified obj\<rparr>) xs m) k
        = Some v \<and> Key v = k"
proof (induction xs arbitrary: m)
  case Nil
  then show ?case by simp
next
  case (Cons x xs)
  show ?case
    unfolding fold_simps by (rule Cons.IH) (rule update_keeps_entry [OF Cons.prems])
qed

lemma fold_update_has_entry:
  "obj \<in> set xs \<Longrightarrow> Key obj \<noteq> ''__proto__'' \<Longrightarrow>
   \<exists>v. map_of (fold (\<lambda>obj. assign (Key obj)
          \<lparr>Key = Key obj, ETag = ETag obj, Size = Size obj, LastModified = LastModified obj\<rparr>) xs m)
          (Key obj) = Some v \<and> Key v = Key obj"
proof (induction xs arbitrary: m)
  case Nil
  then show ?case by simp
next
  case (Cons x xs)
  show ?case
  proof (cases "obj = x")
    case True
    show ?thesis
      unfolding fold_simps True
      by (rule fold_update_keeps_entry)
         (use Cons.prems(2) True in \<open>simp add: assign_def update_conv'\<close>)
  next
    case False
    with Cons.prems have "obj \<in> set xs" by simp
    then show ?thesis
      unfolding fold_simps using Cons.prems(2) by (rule Cons.IH)
  qed
qed

lemma entries_has_entry:
  "p \<in> set pages \<Longrightarrow> obj \<in> set (Contents p) \<Longrightarrow> Key obj \<noteq> ''__proto__'' \<Longrightarrow>
   \<exists>v. map_of (entries pages rval) (Key obj) = Some v \<and> Key v = Key obj"
  unfolding entries_def by (rule fold_update_has_entry) auto

text \<open>No assignment gives the mapping an entry under the key \<open>__proto__\<close>.\<close>

lemma fold_update_no_proto:
  "map_of m ''__proto__'' = None \<Longrightarrow>
   map_of (fold (\<lambda>obj. assign (Key obj) (f obj)) xs m) ''__proto__'' = None"
  by (induction xs arbitrary: m) (simp_all add: assign_def update_conv')

lemma entries_no_proto:
  "map_of rval ''__proto__'' = None \<Longrightarrow> map_of (entries pages rval) ''__proto__'' = None"
  unfolding entries_def by (rule fold_update_no_proto)

lemma fold_update_distinct:
  "distinct (map fst m) \<Longrightarrow>
   distinct (map fst (fold (\<lambda>obj. assign (Key obj) (f obj)) xs m))"
  by (induction xs arbitrary: m) (simp_all add: assign_def distinct_update)

lemma entries_distinct: "distinct (map fst rval) \<Longrightarrow> distinct (map fst (entries pages rval))"
  unfolding entries_def by (rule fold_update_distinct)

lemma listObjects_distinct:
  assumes "listObjects s3c bucket pfx s3 w = Some (Inr m, w')"
  shows "distinct (map fst m)"
proof (cases s3)
  case None
  with assms show ?thesis
    by (simp add: listObjects_def listObjects_loop.simps)
next
  case (Some h)
  from listObjects_loop_fetches [OF assms [unfolded listObjects_def], of h] Some
  have "\<exists>pages r. (Inr m :: error + (string \<times> S3Object) list) =
          (case r of None \<Rightarrow> Inr (entries pages []) | Some e \<Rightarrow> Inl e)"
    by simp blast
  then obtain pages r where
    "(Inr m :: error + (string \<times> S3Object) list) =
       (case r of None \<Rightarrow> Inr (entries pages []) | Some e \<Rightarrow> Inl e)"
    by blast
  then have "m = entries pages []"
    by (cases r) simp_all
  then show ?thesis
    by (simp add: entries_distinct)
qed

text \<open>
  \<open>listObjects\<close> returns a mapping exactly when the store, asked page after page with the
  continuation token of the page before, ended by reporting no further page; the mapping
  then has an entry under the key of every item of every page fetched, but for the key
  \<open>__proto__\<close>, under which it has none. It raises the store's error exactly when the
  store rejected one of these calls, the first or a later one, and then returns no
  mapping. Whenever it returns, it is in one of these two ways.
\<close>

lemma listObjects_pages:
  "(fetches s3c h \<lparr>Bucket = bucket, Prefix = pfx, ContinuationToken = None\<rparr> w pages None w' \<longrightarrow>
      listObjects s3c bucket pfx (Some h) w = Some (Inr (entries pages []), w') \<and>
      (\<forall>p \<in> set pages. \<forall>obj \<in> set (Contents p). Key obj \<noteq> ''__proto__'' \<longrightarrow>
         (\<exists>v. map_of (entries pages []) (Key obj) = Some v \<and> Key v = Key obj)) \<and>
      map_of (entries pages []) ''__proto__'' = None) \<and>
   (fetches s3c h \<lparr>Bucket = bucket, Prefix = pfx, ContinuationToken = None\<rparr> w pages (Some e) w' \<longrightarrow>
      listObjects s3c bucket pfx (Some h) w = Some (Inl e, w')) \<and>
   (listObjects s3c bucket pfx (Some h) w = Some (res, w') \<longrightarrow>
      (\<exists>fetched r.
         fetches s3c h \<lparr>Bucket = bucket, Prefix = pfx, ContinuationToken = None\<rparr> w fetched r w' \<and>
         res = (case r of None \<Rightarrow> Inr (entries fetched []) | Some e \<Rightarrow> Inl e)))"
proof (intro conjI impI ballI)
  assume f: "fetches s3c h \<lparr>Bucket = bucket, Prefix = pfx, ContinuationToken = None\<rparr> w pages None w'"
  from fetches_listObjects_loop [OF f, of "[]"]
  show "listObjects s3c bucket pfx (Some h) w = Some (Inr (entries pages []), w')"
    by (simp add: listObjects_def)
next
  fix p obj
  assume "p \<in> set pages" "obj \<in> set (Contents p)" "Key obj \<noteq> ''__proto__''"
  then show "\<exists>v. map_of (entries pages []) (Key obj) = Some v \<and> Key v = Key obj"
    by (rule entries_has_entry)
next
  show "map_of (entries pages []) ''__proto__'' = None"
    by (rule entries_no_proto) simp
next
  assume f: "fetches s3c h \<lparr>Bucket = bucket, Prefix = pfx, ContinuationToken = None\<rparr> w pages (Some e) w'"
  from fetches_listObjects_loop [OF f, of "[]"]
  show "listObjects s3c bucket pfx (Some h) w = Some (Inl e, w')"
    by (simp add: listObjects_def)
next
  assume l: "listObjects s3c bucket pfx (Some h) w = Some (res, w')"
  from listObjects_loop_fetches [OF l [unfolded listObjects_def], of h]
  show "\<exists>fetched r.
         fetches s3c h \<lparr>Bucket = bucket, Prefix = pfx, ContinuationToken = None\<rparr> w fetched r w' \<and>
         res = (case r of None \<Rightarrow> Inr (entries fetched []) | Some e \<Rightarrow> Inl e)"
    by simp
qed

text \<open>
  C4. The claim fails for an object under the key \<open>__proto__\<close>. The source bucket of this
  store holds the objects \<open>__proto__\<close> and \<open>a/x\<close>; listed under the empty prefix, the store
  answers two pages of one item, and \<open>listObjects\<close>, having fetched both, returns a mapping
  with the one entry \<open>a/x\<close>: the item of the first page has none.
\<close>

theorem listObjects_misses_proto_key:
  "fetches store_client ''src-client''
     \<lparr>Bucket = Some ''source'', Prefix = Some '''', ContinuationToken = None\<rparr> special_store
     [\<lparr>Contents = [\<lparr>Key = ''__proto__'', ETag = ''e6'', Size = 8, LastModified = 6\<rparr>],
       IsTruncated = True, NextContinuationToken = Some ''+''\<rparr>,
      \<lparr>Contents = [\<lparr>Key = ''a/x'', ETag = ''e1'', Size = 10, LastModified = 3\<rparr>],
       IsTruncated = False, NextContinuationToken = None\<rparr>]
     None (tick (tick special_store)) \<and>
   listObjects store_client (Some ''source'') (Some '''') (Some ''src-client'') special_store =
     Some (Inr [(''a/x'', \<lparr>Key = ''a/x'', ETag = ''e1'', Size = 10, LastModified = 3\<rparr>)],
           tick (tick special_store))"
proof -
  let ?p1 = "\<lparr>Contents = [\<lparr>Key = ''__proto__'', ETag = ''e6'', Size = 8, LastModified = 6\<rparr>],
       IsTruncated = True, NextContinuationToken = Some ''+''\<rparr>"
  let ?p2 = "\<lparr>Contents = [\<lparr>Key = ''a/x'', ETag = ''e1'', Size = 10, LastModified = 3\<rparr>],
       IsTruncated = False, NextContinuationToken = None\<rparr>"
  let ?req = "\<lparr>Bucket = Some ''source'', Prefix = Some '''', ContinuationToken = None\<rparr>"
  have first: "s3_listObjectsV2 store_client ''src-client'' ?req special_store =
                 (Inr ?p1, tick special_store)"
    by (simp add: store_client_def store_listObjectsV2_def under_prefix_def special_objects_def
          special_store_def never_def)
  have second: "s3_listObjectsV2 store_client ''src-client''
          (?req\<lparr>ContinuationToken := NextContinuationToken ?p1\<rparr>) (tick special_store) =
                 (Inr ?p2, tick (tick special_store))"
    by (simp add: store_client_def store_listObjectsV2_def under_prefix_def special_objects_def
          special_store_def never_def tick_def)
  have f: "fetches store_client ''src-client'' ?req special_store [?p1, ?p2] None
              (tick (tick special_store))"
    by (rule fetches.next_page [OF first _ fetches.last_page [OF second]]) simp_all
  have "listObjects store_client (Some ''source'') (Some '''') (Some ''src-client'') special_store =
     Some (Inr (entries [?p1, ?p2] []), tick (tick special_store))"
    using fetches_listObjects_loop [OF f, of "[]"] by (simp add: listObjects_def)
  moreover have "entries [?p1, ?p2] [] =
     [(''a/x'', \<lparr>Key = ''a/x'', ETag = ''e1'', Size = 10, LastModified = 3\<rparr>)]"
    by (simp add: entries_def assign_def)
  ultimately show ?thesis
    using f by simp
qed

subsection \<open>The comparison\<close>

lemma classified_Nil [simp]: "classified c cls [] dstObjs = []"
  by (simp add: classified_def)

lemma classified_Cons:
  "classified c cls ((k, s) # es) dstObjs =
     (if classify s (map_of dstObjs (replace k (ToString (srcPrefix c)) (ToString (dstPrefix c)))) = cls
      then s # classified c cls es dstObjs else classified c cls es dstObjs)"
  by (simp add: classified_def)

lemma compare_key_step:
  "map_of srcObjs k = Some s \<Longrightarrow> map_of dstObjs ''hasOwnProperty'' = None \<Longrightarrow>
   compare_key c srcObjs dstObjs k rval =
     (Inr (),
      case classify s (map_of dstObjs (replace k (ToString (srcPrefix c)) (ToString (dstPrefix c)))) of
        NeedsCopy \<Rightarrow> rval\<lparr>needCopy := needCopy rval @ [s]\<rparr>
      | Conflicting \<Rightarrow> rval\<lparr>diff := diff rval @ [s]\<rparr>
      | Unchanged \<Rightarrow> rval\<lparr>existed := existed rval @ [s]\<rparr>)"
  by (simp add: compare_key_def hasOwnProperty_def classify_def Let_def split: option.split)

lemma compare_key_raises:
  "map_of srcObjs k = Some s \<Longrightarrow> map_of dstObjs ''hasOwnProperty'' = Some v \<Longrightarrow>
   compare_key c srcObjs dstObjs k rval = (Inl TypeError, rval)"
  by (simp add: compare_key_def hasOwnProperty_def Let_def)

lemma compare_key_entries:
  "(\<And>k s. (k, s) \<in> set es \<Longrightarrow> map_of srcObjs k = Some s) \<Longrightarrow>
   map_of dstObjs ''hasOwnProperty'' = None \<Longrightarrow>
   runBoundedParallelSingleParam (compare_key c srcObjs dstObjs) (map fst es) rval =
     (Inr (), rval\<lparr>needCopy := needCopy rval @ classified c NeedsCopy es dstObjs,
                  existed := existed rval @ classified c Unchanged es dstObjs,
                  diff := diff rval @ classified c Conflicting es dstObjs\<rparr>)"
proof (induction es arbitrary: rval)
  case Nil
  then show ?case by simp
next
  case (Cons e es)
  obtain k s where e: "e = (k, s)" by (cases e)
  have look: "map_of srcObjs k = Some s" using Cons.prems(1) e by simp
  have rest: "\<And>k s. (k, s) \<in> set es \<Longrightarrow> map_of srcObjs k = Some s"
    using Cons.prems(1) by simp
  show ?case
    unfolding e
    by (cases "classify s (map_of dstObjs (replace k (ToString (srcPrefix c)) (ToString (dstPrefix c))))")
       (simp_all add: compare_key_step [OF look Cons.prems(2)] Cons.IH [OF rest Cons.prems(2)]
          classified_Cons)
qed

text \<open>
  The read \<open>srcObjs[key]\<close> is defined for every key of \<open>Object.keys(srcObjs)\<close>. Over the
  keys of a mapping, and with a destination listing that has no key \<open>hasOwnProperty\<close>, the
  comparison raises nothing and sorts the objects by \<open>classify\<close>; with such a key, it
  raises at the first source key.
\<close>

lemma compare_keys_defined:
  assumes "distinct (map fst srcObjs)" "map_of dstObjs ''hasOwnProperty'' = None"
  shows "runBoundedParallelSingleParam (compare_key c srcObjs dstObjs) (map fst srcObjs)
           \<lparr>needCopy = [], existed = [], diff = []\<rparr> =
         (Inr (), \<lparr>needCopy = classified c NeedsCopy srcObjs dstObjs,
                   existed = classified c Unchanged srcObjs dstObjs,
                   diff = classified c Conflicting srcObjs dstObjs\<rparr>)"
proof -
  have "\<And>k s. (k, s) \<in> set srcObjs \<Longrightarrow> map_of srcObjs k = Some s"
    using assms(1) by simp
  from compare_key_entries [of srcObjs srcObjs, OF this assms(2)] show ?thesis
    by simp
qed

lemma compare_keys_raise:
  assumes "srcObjs \<noteq> []" "map_of dstObjs ''hasOwnProperty'' \<noteq> None"
  shows "runBoundedParallelSingleParam (compare_key c srcObjs dstObjs) (map fst srcObjs) rval =
         (Inl TypeError, rval)"
proof -
  from assms(1) obtain k s es where es: "srcObjs = (k, s) # es"
    by (cases srcObjs) auto
  from assms(2) obtain v where v: "map_of dstObjs ''hasOwnProperty'' = Some v"
    by auto
  have "map_of srcObjs k = Some s"
    by (simp add: es)
  from compare_key_raises [OF this v] show ?thesis
    by (simp add: es)
qed

lemma classified_partition:
  "mset (classified c NeedsCopy es dstObjs) + mset (classified c Conflicting es dstObjs)
     + mset (classified c Unchanged es dstObjs) = mset (map snd es)"
proof (induction es)
  case Nil
  then show ?case by simp
next
  case (Cons e es)
  obtain k s where e: "e = (k, s)" by (cases e)
  show ?case
    unfolding e using Cons.IH
    by (cases "classify s (map_of dstObjs (replace k (ToString (srcPrefix c)) (ToString (dstPrefix c))))")
       (simp_all add: classified_Cons)
qed

text \<open>
  What \<open>compareSrcAndDst\<close> returns, from what its two listings return: the source listing
  sorted by \<open>classify\<close>, unless the destination listing has a key \<open>hasOwnProperty\<close> and
  there is a source key to look up, when it raises a \<open>TypeError\<close> and sorts nothing.
\<close>

lemma compareSrcAndDst_of_listings:
  assumes "listObjects s3c (srcBucket c) (srcPrefix c) (srcS3 c) w = Some (Inr srcObjs, w1)"
    and "listObjects s3c (dstBucket c) (dstPrefix c) (dstS3 c) w1 = Some (Inr dstObjs, w2)"
  shows "compareSrcAndDst s3c c w =
     Some (if srcObjs \<noteq> [] \<and> map_of dstObjs ''hasOwnProperty'' \<noteq> None then Inl TypeError
           else Inr \<lparr>needCopy = classified c NeedsCopy srcObjs dstObjs,
                     existed = classified c Unchanged srcObjs dstObjs,
                     diff = classified c Conflicting srcObjs dstObjs\<rparr>, w2)"
proof -
  have dist: "distinct (map fst srcObjs)"
    using assms(1) by (rule listObjects_distinct)
  show ?thesis
  proof (cases "map_of dstObjs ''hasOwnProperty''")
    case None
    then show ?thesis
      by (simp add: compareSrcAndDst_def assms compare_keys_defined [OF dist None])
  next
    case (Some v)
    show ?thesis
    proof (cases "srcObjs = []")
      case True
      then show ?thesis
        by (simp add: compareSrcAndDst_def assms)
    next
      case False
      have "map_of dstObjs ''hasOwnProperty'' \<noteq> None"
        using Some by simp
      from compare_keys_raise [OF False this] False Some show ?thesis
        by (simp add: compareSrcAndDst_def assms)
    qed
  qed
qed

lemma compareSrcAndDst_listings:
  assumes "compareSrcAndDst s3c c w = Some (Inr cmp, w')"
  shows "\<exists>srcObjs dstObjs w1.
     listObjects s3c (srcBucket c) (srcPrefix c) (srcS3 c) w = Some (Inr srcObjs, w1) \<and>
     listObjects s3c (dstBucket c) (dstPrefix c) (dstS3 c) w1 = Some (Inr dstObjs, w') \<and>
     cmp = \<lparr>needCopy = classified c NeedsCopy srcObjs dstObjs,
            existed = classified c Unchanged srcObjs dstObjs,
            diff = classified c Conflicting srcObjs dstObjs\<rparr>"
proof -
  from assms obtain getSrc w1 where
    l1: "listObjects s3c (srcBucket c) (srcPrefix c) (srcS3 c) w = Some (getSrc, w1)"
    by (auto simp: compareSrcAndDst_def split: option.splits)
  from assms l1 obtain getDst w2 where
    l2: "listObjects s3c (dstBucket c) (dstPrefix c) (dstS3 c) w1 = Some (getDst, w2)"
    by (auto simp: compareSrcAndDst_def split: option.splits)
  from assms l1 l2 obtain srcObjs where s: "getSrc = Inr srcObjs"
    by (cases getSrc) (auto simp: compareSrcAndDst_def)
  from assms l1 l2 s obtain dstObjs where d: "getDst = Inr dstObjs"
    by (cases getDst) (auto simp: compareSrcAndDst_def)
  from compareSrcAndDst_of_listings [OF l1 [unfolded s] l2 [unfolded d]] assms
  have "w' = w2" and
     "cmp = \<lparr>needCopy = classified c NeedsCopy srcObjs dstObjs,
            existed = classified c Unchanged srcObjs dstObjs,
            diff = classified c Conflicting srcObjs dstObjs\<rparr>"
    by (simp_all split: if_splits)
  with l1 l2 s d show ?thesis by blast
qed

text \<open>
  The three lists are the objects of the source listing sorted by the spec's rule, for
  the key that the code translates to, each source object standing in exactly one list:
  whenever both listings return and the destination listing has no key
  \<open>hasOwnProperty\<close>, the comparison returns, with in \<open>needCopy\<close> the objects whose
  translated key is absent from the destination listing, in \<open>diff\<close> those present with
  another size or, at equal size, with a newer source, and in \<open>existed\<close> those present
  with equal size and a source that is not newer.
\<close>

lemma compareSrcAndDst_classifies:
  assumes "listObjects s3c (srcBucket c) (srcPrefix c) (srcS3 c) w = Some (Inr srcObjs, w1)"
    and "listObjects s3c (dstBucket c) (dstPrefix c) (dstS3 c) w1 = Some (Inr dstObjs, w2)"
    and "map_of dstObjs ''hasOwnProperty'' = None"
  shows "\<exists>cmp. compareSrcAndDst s3c c w = Some (Inr cmp, w2) \<and>
     needCopy cmp = classified c NeedsCopy srcObjs dstObjs \<and>
     diff cmp = classified c Conflicting srcObjs dstObjs \<and>
     existed cmp = classified c Unchanged srcObjs dstObjs \<and>
     mset (needCopy cmp) + mset (diff cmp) + mset (existed cmp) = mset (map snd srcObjs) \<and>
     (\<forall>(k, s) \<in> set srcObjs. \<forall>d.
        map_of dstObjs (replace k (ToString (srcPrefix c)) (ToString (dstPrefix c))) = Some d \<and>
        Size s = Size d \<and> LastModified d < LastModified s \<longrightarrow> s \<in> set (diff cmp))"
proof -
  let ?cmp = "\<lparr>needCopy = classified c NeedsCopy srcObjs dstObjs,
            existed = classified c Unchanged srcObjs dstObjs,
            diff = classified c Conflicting srcObjs dstObjs\<rparr>"
  have run: "compareSrcAndDst s3c c w = Some (Inr ?cmp, w2)"
    using compareSrcAndDst_of_listings [OF assms(1,2)] assms(3) by simp
  have "mset (needCopy ?cmp) + mset (diff ?cmp) + mset (existed ?cmp) = mset (map snd srcObjs)"
    using classified_partition [of c srcObjs dstObjs] by simp
  moreover have "\<forall>(k, s) \<in> set srcObjs. \<forall>d.
        map_of dstObjs (replace k (ToString (srcPrefix c)) (ToString (dstPrefix c))) = Some d \<and>
        Size s = Size d \<and> LastModified d < LastModified s \<longrightarrow> s \<in> set (diff ?cmp)"
    by (force simp: classified_def classify_def)
  ultimately show ?thesis
    using run by (intro exI [of _ ?cmp]) simp
qed

text \<open>
  C1. The claim fails where the destination listing holds an object under the key
  \<open>hasOwnProperty\<close>. With the destination prefix empty and such an object in the
  destination bucket, both listings return, the source listing with the object \<open>a/x\<close>, and
  the comparison raises a \<open>TypeError\<close> at this first source key: no source key is sorted
  into any list.
\<close>

theorem compareSrcAndDst_raises_on_hasOwnProperty:
  "listObjects store_client (Some ''source'') (Some ''a/'') (Some ''src-client'') special_store =
     Some (Inr [(''a/x'', \<lparr>Key = ''a/x'', ETag = ''e1'', Size = 10, LastModified = 3\<rparr>)],
           tick special_store) \<and>
   listObjects store_client (Some ''backup'') (Some '''') (Some ''dst-client'') (tick special_store) =
     Some (Inr [(''hasOwnProperty'',
                 \<lparr>Key = ''hasOwnProperty'', ETag = ''e7'', Size = 9, LastModified = 7\<rparr>)],
           tick (tick special_store)) \<and>
   compare_key (example_config\<lparr>dstPrefix := Some ''''\<rparr>)
       [(''a/x'', \<lparr>Key = ''a/x'', ETag = ''e1'', Size = 10, LastModified = 3\<rparr>)]
       [(''hasOwnProperty'', \<lparr>Key = ''hasOwnProperty'', ETag = ''e7'', Size = 9, LastModified = 7\<rparr>)]
       ''a/x'' \<lparr>needCopy = [], existed = [], diff = []\<rparr> =
     (Inl TypeError, \<lparr>needCopy = [], existed = [], diff = []\<rparr>) \<and>
   compareSrcAndDst store_client (example_config\<lparr>dstPrefix := Some ''''\<rparr>) special_store =
     Some (Inl TypeError, tick (tick special_store))"
  by (simp add: compareSrcAndDst_def listObjects_def listObjects_loop.simps store_client_def
        store_listObjectsV2_def under_prefix_def special_store_def special_objects_def
        example_config_def tick_def never_def compare_key_def hasOwnProperty_def assign_def
        replace_def ToString_def Let_def)

subsection \<open>The copy of one object\<close>

lemma copy_attempt_recording:
  "copy_attempt (recording s3c) c key dstKey sz express wc = (r, wc') \<Longrightarrow>
   snd wc' = snd wc @ recorded (attempt_call c key dstKey sz express) [\<not> isl r]"
  by (cases wc)
     (auto simp: copy_attempt_def recording_def attempt_call_def recorded_def
           split: option.splits prod.splits if_splits)

text \<open>The loop, one pass at a time.\<close>

lemma copyObject_loop_pass:
  "copyObject_loop s3 c key dstKey sz express completedCopying retries w =
     (if \<not> completedCopying \<and> retries_left retries (maxRetries c) then
        (if isl (fst (copy_attempt s3 c key dstKey sz express w))
         then copyObject_loop s3 c key dstKey sz express completedCopying (retries + 1)
                (snd (copy_attempt s3 c key dstKey sz express w))
         else copyObject_loop s3 c key dstKey sz express True retries
                (snd (copy_attempt s3 c key dstKey sz express w)))
      else ((completedCopying, retries), w))"
  by (subst copyObject_loop.simps) (auto split: prod.splits sum.splits)

text \<open>
  The calls of a run of the loop, from any state of its two variables: \<open>oks\<close> are the
  outcomes of its passes through the \<open>try\<close> block.
\<close>

lemma copyObject_loop_recording:
  "copyObject_loop cl c key dstKey sz express completedCopying retries wc = (locals, wc') \<Longrightarrow>
   cl = recording s3c \<Longrightarrow>
   \<exists>oks. snd wc' = snd wc @ recorded (attempt_call c key dstKey sz express) oks
      \<and> int (length oks) \<le> (if completedCopying then 0
                               else (case maxRetries c of None \<Rightarrow> 0 | Some m \<Rightarrow> max 0 (m - retries)))
      \<and> (\<forall>ok \<in> set (butlast oks). \<not> ok)
      \<and> (fst locals \<longleftrightarrow> completedCopying \<or> (oks \<noteq> [] \<and> last oks))
      \<and> (\<not> completedCopying \<and> retries_left retries (maxRetries c) \<longrightarrow> oks \<noteq> [])"
proof (induction cl c key dstKey sz express completedCopying retries wc
        arbitrary: locals wc' rule: copyObject_loop.induct)
  case (1 cl c key dstKey sz express completedCopying retries w)
  note cl = \<open>cl = recording s3c\<close>
  show ?case
  proof (cases "\<not> completedCopying \<and> retries_left retries (maxRetries c)")
    case False
    with "1.prems" have "wc' = w" "fst locals = completedCopying"
      by (auto simp: copyObject_loop_pass [of _ _ _ _ _ _ completedCopying retries])
    with False show ?thesis
      by (intro exI [of _ "[]"]) (auto simp: recorded_def retries_left_def split: option.splits)
  next
    case True
    then obtain m where m: "maxRetries c = Some m" "retries < m"
      by (auto simp: retries_left_def split: option.splits)
    obtain r w1 where att: "copy_attempt cl c key dstKey sz express w = (r, w1)"
      by (cases "copy_attempt cl c key dstKey sz express w")
    note rec1 = copy_attempt_recording [OF att [unfolded cl]]
    show ?thesis
    proof (cases r)
      case (Inr u)
      with True att "1.prems"
      have run: "copyObject_loop cl c key dstKey sz express True retries w1 = (locals, wc')"
        by (subst (asm) copyObject_loop_pass) simp
      then have "wc' = w1" "fst locals = True"
        by (auto simp: copyObject_loop_pass [of _ _ _ _ _ _ True])
      with rec1 Inr True m show ?thesis
        by (intro exI [of _ "[True]"]) auto
    next
      case (Inl e)
      with True att "1.prems"
      have run: "copyObject_loop cl c key dstKey sz express completedCopying (retries + 1) w1 = (locals, wc')"
        by (subst (asm) copyObject_loop_pass) simp
      from "1.IH"(1) [OF True att [symmetric] Inl run cl]
      obtain oks where oks:
        "snd wc' = snd w1 @ recorded (attempt_call c key dstKey sz express) oks"
        "int (length oks) \<le> max 0 (m - (retries + 1))"
        "\<forall>ok \<in> set (butlast oks). \<not> ok"
        "fst locals \<longleftrightarrow> completedCopying \<or> (oks \<noteq> [] \<and> last oks)"
        using True m by auto
      show ?thesis
        using oks rec1 Inl True m
        by (intro exI [of _ "False # oks"]) (auto simp: recorded_def split: option.splits)
    qed
  qed
qed

lemma recorded_strategy:
  "a \<in> set (recorded (attempt_call c key dstKey sz express) oks) \<Longrightarrow> is_express (fst a) = express"
  by (auto simp: recorded_def attempt_call_def is_express_def split: option.splits if_splits)

text \<open>
  C5. \<open>copyObject\<close> is a total function: it returns for every key, client and world. The
  calls it makes are the same call every time, a server-side copy when \<open>express\<close> is set
  and an upload otherwise; the passes through its loop, whose outcomes are \<open>oks\<close>, are at
  most \<open>maxRetries\<close>; and every pass but the last one failed, so that no attempt follows a
  successful one.
\<close>

theorem copyObject_bounded_attempts:
  assumes "copyObject (recording s3c) c key sz express (w, calls) = (r, (w', calls'))"
  shows "\<exists>oks.
     calls' = calls @ recorded (attempt_call c key
                 (replace key (ToString (srcPrefix c)) (ToString (dstPrefix c))) sz express) oks \<and>
     int (length oks) \<le> (case maxRetries c of None \<Rightarrow> 0 | Some m \<Rightarrow> max 0 m) \<and>
     (\<forall>ok \<in> set (butlast oks). \<not> ok) \<and>
     (\<forall>a \<in> set (recorded (attempt_call c key
                 (replace key (ToString (srcPrefix c)) (ToString (dstPrefix c))) sz express) oks).
        is_express (fst a) = express)"
proof -
  let ?dstKey = "replace key (ToString (srcPrefix c)) (ToString (dstPrefix c))"
  obtain locals wc where
    loop: "copyObject_loop (recording s3c) c key ?dstKey sz express False 0 (w, calls) = (locals, wc)"
    by (cases "copyObject_loop (recording s3c) c key ?dstKey sz express False 0 (w, calls)")
  with assms have wc: "wc = (w', calls')"
    by (simp add: copyObject_def Let_def)
  from copyObject_loop_recording [OF loop refl] obtain oks where
    oks: "snd wc = snd (w, calls) @ recorded (attempt_call c key ?dstKey sz express) oks"
      "int (length oks) \<le> (if False then 0
                               else (case maxRetries c of None \<Rightarrow> 0 | Some m \<Rightarrow> max 0 (m - 0)))"
      "\<forall>ok \<in> set (butlast oks). \<not> ok"
    by blast
  have "calls' = calls @ recorded (attempt_call c key ?dstKey sz express) oks"
    using oks(1) wc by simp
  moreover have "int (length oks) \<le> (case maxRetries c of None \<Rightarrow> 0 | Some m \<Rightarrow> max 0 m)"
    using oks(2) by (simp split: option.splits)
  moreover have "\<forall>a \<in> set (recorded (attempt_call c key ?dstKey sz express) oks).
        is_express (fst a) = express"
    using recorded_strategy by blast
  ultimately show ?thesis
    using oks(3) by blast
qed

theorem copyObject_bounded_attempts_witness:
  "copyObject (recording store_client) example_config ''a/x'' 10 False
       (example_store\<lparr>rejects := first_two\<rparr>, []) =
     (Inr (),
      (tick (store_put ''backup'' ''b/x'' \<lparr>Key = ''a/x'', ETag = ''e1'', Size = 10, LastModified = 3\<rparr>
         (tick (tick (example_store\<lparr>rejects := first_two\<rparr>)))),
       recorded (Some (UploadCall ''dst-client''
          \<lparr>put_Bucket = Some ''backup'', put_Key = ''b/x'',
           Body = (''src-client'', Some ''source'', ''a/x''), ContentLength = 10\<rparr>))
         [False, False, True])) \<and>
   (\<exists>oks. recorded (Some (UploadCall ''dst-client''
          \<lparr>put_Bucket = Some ''backup'', put_Key = ''b/x'',
           Body = (''src-client'', Some ''source'', ''a/x''), ContentLength = 10\<rparr>))
         [False, False, True] =
       [] @ recorded (attempt_call example_config ''a/x''
                 (replace ''a/x'' (ToString (srcPrefix example_config))
                    (ToString (dstPrefix example_config))) 10 False) oks \<and>
       int (length oks) \<le> (case maxRetries example_config of None \<Rightarrow> 0 | Some m \<Rightarrow> max 0 m) \<and>
       (\<forall>ok \<in> set (butlast oks). \<not> ok))"
proof -
  have run: "copyObject (recording store_client) example_config ''a/x'' 10 False
       (example_store\<lparr>rejects := first_two\<rparr>, []) =
     (Inr (),
      (tick (store_put ''backup'' ''b/x'' \<lparr>Key = ''a/x'', ETag = ''e1'', Size = 10, LastModified = 3\<rparr>
         (tick (tick (example_store\<lparr>rejects := first_two\<rparr>)))),
       recorded (Some (UploadCall ''dst-client''
          \<lparr>put_Bucket = Some ''backup'', put_Key = ''b/x'',
           Body = (''src-client'', Some ''source'', ''a/x''), ContentLength = 10\<rparr>))
         [False, False, True]))"
    by (simp add: copyObject_def copy_attempt_def recording_def store_client_def store_upload_def
          store_put_def example_config_def example_store_def example_objects_def tick_def first_two_def
          retries_left_def replace_def ToString_def recorded_def Let_def copyObject_loop_pass)
  from copyObject_bounded_attempts [OF run] show ?thesis
    using run by blast
qed

lemma copyObject_returns: "fst (copyObject s3c c key sz express w) = Inr ()"
  by (simp add: copyObject_def Let_def split_beta)

lemma copy_phase_returns: "fst (runBoundedParallelSingleParam (cp s3c c) objs w) = Inr ()"
proof (induction objs arbitrary: w)
  case Nil
  then show ?case by simp
next
  case (Cons obj objs)
  obtain r w1 where step: "cp s3c c obj w = (r, w1)"
    by (cases "cp s3c c obj w")
  with copyObject_returns [of s3c c "Key obj" "Size obj" False w] have "r = Inr ()"
    by (simp add: cp_def)
  with step Cons.IH [of w1] show ?case
    by simp
qed

lemma cp_calls:
  assumes "cp (recording s3c) c obj wc = (r, wc')"
  shows "\<exists>oks. snd wc' = snd wc @ recorded (attempt_call c (Key obj)
            (replace (Key obj) (ToString (srcPrefix c)) (ToString (dstPrefix c))) (Size obj) False) oks \<and>
          (retries_left 0 (maxRetries c) \<longrightarrow> oks \<noteq> [])"
proof -
  let ?dstKey = "replace (Key obj) (ToString (srcPrefix c)) (ToString (dstPrefix c))"
  obtain locals wl where
    loop: "copyObject_loop (recording s3c) c (Key obj) ?dstKey (Size obj) False False 0 wc = (locals, wl)"
    by (cases "copyObject_loop (recording s3c) c (Key obj) ?dstKey (Size obj) False False 0 wc")
  with assms have "wl = wc'"
    by (simp add: cp_def copyObject_def Let_def)
  with copyObject_loop_recording [OF loop refl] show ?thesis
    by blast
qed

lemma copy_phase_calls_grow:
  "\<exists>more. snd (snd (runBoundedParallelSingleParam (cp (recording s3c) c) objs wc)) = snd wc @ more"
proof (induction objs arbitrary: wc)
  case Nil
  then show ?case by simp
next
  case (Cons obj objs)
  obtain r w1 where step: "cp (recording s3c) c obj wc = (r, w1)"
    by (cases "cp (recording s3c) c obj wc")
  from copyObject_returns [of "recording s3c" c "Key obj" "Size obj" False wc] step
  have r: "r = Inr ()" by (simp add: cp_def)
  from cp_calls [OF step] obtain first where first: "snd w1 = snd wc @ first"
    by blast
  from Cons.IH [of w1] obtain more where
    "snd (snd (runBoundedParallelSingleParam (cp (recording s3c) c) objs w1)) = snd w1 @ more"
    by blast
  with first step r show ?case
    by simp
qed

lemma copy_phase_attempts_each:
  assumes cfg: "0 < m" "maxRetries c = Some m" "srcS3 c = Some src" "dstS3 c = Some dst"
    and obj: "obj \<in> set objs"
  shows "\<exists>ok. (UploadCall dst
            \<lparr>put_Bucket = dstBucket c,
             put_Key = replace (Key obj) (ToString (srcPrefix c)) (ToString (dstPrefix c)),
             Body = (src, srcBucket c, Key obj), ContentLength = Size obj\<rparr>, ok)
          \<in> set (snd (snd (runBoundedParallelSingleParam (cp (recording s3c) c) objs wc)))"
  using obj
proof (induction objs arbitrary: wc)
  case Nil
  then show ?case by simp
next
  case (Cons x objs)
  let ?call = "\<lambda>obj. UploadCall dst
            \<lparr>put_Bucket = dstBucket c,
             put_Key = replace (Key obj) (ToString (srcPrefix c)) (ToString (dstPrefix c)),
             Body = (src, srcBucket c, Key obj), ContentLength = Size obj\<rparr>"
  obtain r w1 where step: "cp (recording s3c) c x wc = (r, w1)"
    by (cases "cp (recording s3c) c x wc")
  from copyObject_returns [of "recording s3c" c "Key x" "Size x" False wc] step
  have r: "r = Inr ()" by (simp add: cp_def)
  have run: "runBoundedParallelSingleParam (cp (recording s3c) c) (x # objs) wc =
             runBoundedParallelSingleParam (cp (recording s3c) c) objs w1"
    using step r by simp
  show ?case
  proof (cases "obj = x")
    case True
    have call: "attempt_call c (Key x)
            (replace (Key x) (ToString (srcPrefix c)) (ToString (dstPrefix c))) (Size x) False
          = Some (?call x)"
      using cfg by (simp add: attempt_call_def)
    from cp_calls [OF step] cfg obtain oks where
      "snd w1 = snd wc @ recorded (Some (?call x)) oks" "oks \<noteq> []"
      unfolding call by (auto simp: retries_left_def)
    then have "(?call x, hd oks) \<in> set (snd w1)"
      by (cases oks) (simp_all add: recorded_def)
    moreover from copy_phase_calls_grow [of s3c c objs w1] obtain more where
      "snd (snd (runBoundedParallelSingleParam (cp (recording s3c) c) objs w1)) = snd w1 @ more"
      by blast
    ultimately show ?thesis
      unfolding run True by auto
  next
    case False
    with Cons.prems have "obj \<in> set objs" by simp
    from Cons.IH [OF this, of w1] show ?thesis
      unfolding run .
  qed
qed

text \<open>
  C3, as amended. \<open>copyObject\<close> never raises: whatever the client does, it returns, and it
  returns the same value (nothing) whether the copy completed or every attempt failed; the
  completion is not reported. The copying phase, \<open>cp\<close> run over a list of objects,
  never raises either, and with a positive \<open>maxRetries\<close> and both clients present it makes
  the upload call of every object of the list at least once, whatever the outcomes of the
  calls for the other objects.
\<close>

theorem copy_failures_are_swallowed:
  "fst (copyObject s3c c key sz express w) = Inr () \<and>
   fst (runBoundedParallelSingleParam (cp s3c c) objs w) = Inr () \<and>
   (0 < m \<and> maxRetries c = Some m \<and> srcS3 c = Some src \<and> dstS3 c = Some dst \<longrightarrow>
      (\<forall>obj \<in> set objs. \<exists>ok.
         (UploadCall dst
            \<lparr>put_Bucket = dstBucket c,
             put_Key = replace (Key obj) (ToString (srcPrefix c)) (ToString (dstPrefix c)),
             Body = (src, srcBucket c, Key obj), ContentLength = Size obj\<rparr>, ok)
          \<in> set (snd (snd (runBoundedParallelSingleParam (cp (recording s3c) c) objs (w, []))))))"
proof (intro conjI impI ballI)
  show "fst (copyObject s3c c key sz express w) = Inr ()"
    by (rule copyObject_returns)
  show "fst (runBoundedParallelSingleParam (cp s3c c) objs w) = Inr ()"
    by (rule copy_phase_returns)
next
  fix obj
  assume "0 < m \<and> maxRetries c = Some m \<and> srcS3 c = Some src \<and> dstS3 c = Some dst"
    and "obj \<in> set objs"
  then show "\<exists>ok. (UploadCall dst
            \<lparr>put_Bucket = dstBucket c,
             put_Key = replace (Key obj) (ToString (srcPrefix c)) (ToString (dstPrefix c)),
             Body = (src, srcBucket c, Key obj), ContentLength = Size obj\<rparr>, ok)
          \<in> set (snd (snd (runBoundedParallelSingleParam (cp (recording s3c) c) objs (w, []))))"
    using copy_phase_attempts_each [of m c src dst obj objs s3c "(w, [])"] by blast
qed

theorem copy_failures_are_swallowed_witness:
  "0 < (5::int) \<and> maxRetries example_config = Some 5 \<and>
   srcS3 example_config = Some ''src-client'' \<and> dstS3 example_config = Some ''dst-client'' \<and>
   fst (runBoundedParallelSingleParam (cp store_client example_config)
          [\<lparr>Key = ''a/x'', ETag = ''e1'', Size = 10, LastModified = 3\<rparr>,
           \<lparr>Key = ''a/y'', ETag = ''e2'', Size = 20, LastModified = 4\<rparr>]
          (example_store\<lparr>rejects := always\<rparr>)) = Inr () \<and>
   (\<exists>ok. (UploadCall ''dst-client''
            \<lparr>put_Bucket = Some ''backup'', put_Key = ''b/y'',
             Body = (''src-client'', Some ''source'', ''a/y''), ContentLength = 20\<rparr>, ok)
          \<in> set (snd (snd (runBoundedParallelSingleParam (cp (recording store_client) example_config)
                [\<lparr>Key = ''a/x'', ETag = ''e1'', Size = 10, LastModified = 3\<rparr>,
                 \<lparr>Key = ''a/y'', ETag = ''e2'', Size = 20, LastModified = 4\<rparr>]
                (example_store\<lparr>rejects := always\<rparr>, [])))))"
proof -
  have cfg: "0 < (5::int) \<and> maxRetries example_config = Some 5 \<and>
     srcS3 example_config = Some ''src-client'' \<and> dstS3 example_config = Some ''dst-client''"
    by (simp add: example_config_def)
  have key: "replace ''a/y'' (ToString (srcPrefix example_config)) (ToString (dstPrefix example_config))
      = ''b/y''"
    by (simp add: replace_def ToString_def example_config_def)
  from copy_failures_are_swallowed
    [where ?s3c = store_client and ?c = example_config and ?m = 5
       and ?src = "''src-client''" and ?dst = "''dst-client''"
       and ?w = "example_store\<lparr>rejects := always\<rparr>"
       and ?objs = "[\<lparr>Key = ''a/x'', ETag = ''e1'', Size = 10, LastModified = 3\<rparr>,
          \<lparr>Key = ''a/y'', ETag = ''e2'', Size = 20, LastModified = 4\<rparr>]"]
    cfg key
  show ?thesis
    by (simp add: example_config_def)
qed

theorem copy_status_counterexample:
  "fst (copyObject store_client example_config ''a/x'' 10 False example_store) =
   fst (copyObject store_client example_config ''a/x'' 10 False (example_store\<lparr>rejects := always\<rparr>)) \<and>
   fst (fst (copyObject_loop store_client example_config ''a/x'' ''b/x'' 10 False False 0 example_store)) \<and>
   \<not> fst (fst (copyObject_loop store_client example_config ''a/x'' ''b/x'' 10 False False 0
               (example_store\<lparr>rejects := always\<rparr>)))"
  by (simp add: copyObject_returns copyObject_loop_pass copy_attempt_def store_client_def
        store_upload_def store_put_def example_config_def example_store_def example_objects_def
        tick_def never_def always_def retries_left_def)

subsection \<open>The constructor\<close>

lemma constructor_Some:
  "constructor (Some c) =
     Inr (c\<lparr>maxNumThreads := (if falsy (maxNumThreads c) then Some 15 else maxNumThreads c),
            maxRetries := (if falsy (maxRetries c) then Some 5 else maxRetries c)\<rparr>)"
  by (simp add: constructor_def notNullOrUndefined_def Let_def)

lemma copyObject_loop_progress:
  "copyObject_loop s3 c key dstKey sz express completedCopying retries w = (locals, w') \<Longrightarrow>
   retries \<le> snd locals \<and> (completedCopying \<longrightarrow> fst locals) \<and>
   (\<not> completedCopying \<and> retries_left retries (maxRetries c) \<longrightarrow> fst locals \<or> retries < snd locals)"
proof (induction s3 c key dstKey sz express completedCopying retries w
        arbitrary: locals w' rule: copyObject_loop.induct)
  case (1 s3 c key dstKey sz express completedCopying retries w)
  show ?case
  proof (cases "\<not> completedCopying \<and> retries_left retries (maxRetries c)")
    case False
    with "1.prems" show ?thesis
      by (auto simp: copyObject_loop_pass [of _ _ _ _ _ _ completedCopying retries])
  next
    case True
    obtain r w1 where att: "copy_attempt s3 c key dstKey sz express w = (r, w1)"
      by (cases "copy_attempt s3 c key dstKey sz express w")
    show ?thesis
    proof (cases r)
      case (Inr u)
      with True att "1.prems"
      have run: "copyObject_loop s3 c key dstKey sz express True retries w1 = (locals, w')"
        by (subst (asm) copyObject_loop_pass) simp
      from "1.IH"(2) [OF True att [symmetric] Inr run] show ?thesis
        by simp
    next
      case (Inl e)
      with True att "1.prems"
      have run: "copyObject_loop s3 c key dstKey sz express completedCopying (retries + 1) w1 = (locals, w')"
        by (subst (asm) copyObject_loop_pass) simp
      from "1.IH"(1) [OF True att [symmetric] Inl run] show ?thesis
        by simp
    qed
  qed
qed

text \<open>
  C10, as amended. The constructor replaces a \<open>maxNumThreads\<close> or a \<open>maxRetries\<close> that is
  falsy (omitted or 0) by its default, 15 or 5, and keeps a truthy one: neither field is
  undefined or 0 afterwards. When the configured \<open>maxRetries\<close> is not negative,
  \<open>copyObject\<close> then passes through its loop at least once (it ends with the copy completed
  or with a failure counted). A negative \<open>maxRetries\<close> is truthy and kept as it is, and
  \<open>copyObject\<close> then makes no attempt: it leaves its loop at once, having called nothing.
\<close>

theorem constructor_defaults:
  "\<exists>c'. constructor (Some c) = Inr c' \<and>
     maxNumThreads c' =
       (if maxNumThreads c = None \<or> maxNumThreads c = Some 0 then Some 15 else maxNumThreads c) \<and>
     maxRetries c' =
       (if maxRetries c = None \<or> maxRetries c = Some 0 then Some 5 else maxRetries c) \<and>
     maxNumThreads c' \<noteq> None \<and> maxNumThreads c' \<noteq> Some 0 \<and>
     maxRetries c' \<noteq> None \<and> maxRetries c' \<noteq> Some 0 \<and>
     ((\<forall>m. maxRetries c = Some m \<longrightarrow> 0 \<le> m) \<longrightarrow>
        fst (fst (copyObject_loop s3c c' key dstKey sz express False 0 w)) \<or>
        0 < snd (fst (copyObject_loop s3c c' key dstKey sz express False 0 w))) \<and>
     ((\<exists>m. maxRetries c = Some m \<and> m < 0) \<longrightarrow>
        maxRetries c' = maxRetries c \<and>
        copyObject_loop s3c c' key dstKey sz express False 0 w = ((False, 0), w) \<and>
        copyObject (recording s3c) c' key sz express (w, calls) = (Inr (), (w, calls)))"
proof -
  define c' where "c' = c\<lparr>maxNumThreads := (if falsy (maxNumThreads c) then Some 15 else maxNumThreads c),
            maxRetries := (if falsy (maxRetries c) then Some 5 else maxRetries c)\<rparr>"
  have made: "constructor (Some c) = Inr c'"
    by (simp add: constructor_Some c'_def)
  have fields: "maxNumThreads c' =
           (if maxNumThreads c = None \<or> maxNumThreads c = Some 0 then Some 15 else maxNumThreads c)"
      "maxRetries c' =
           (if maxRetries c = None \<or> maxRetries c = Some 0 then Some 5 else maxRetries c)"
    unfolding c'_def by (auto simp: falsy_def split: option.splits)
  have passes: "fst (fst (copyObject_loop s3c c' key dstKey sz express False 0 w)) \<or>
            0 < snd (fst (copyObject_loop s3c c' key dstKey sz express False 0 w))"
    if nonneg: "\<forall>m. maxRetries c = Some m \<longrightarrow> 0 \<le> m"
  proof -
    have "retries_left 0 (maxRetries c')"
      using nonneg fields(2) by (cases "maxRetries c") (auto simp: retries_left_def)
    moreover obtain locals w' where
      "copyObject_loop s3c c' key dstKey sz express False 0 w = (locals, w')"
      by (cases "copyObject_loop s3c c' key dstKey sz express False 0 w")
    ultimately show ?thesis
      using copyObject_loop_progress [of s3c c' key dstKey sz express False 0 w locals w']
      by simp
  qed
  have none: "maxRetries c' = maxRetries c \<and>
            copyObject_loop s3c c' key dstKey sz express False 0 w = ((False, 0), w) \<and>
            copyObject (recording s3c) c' key sz express (w, calls) = (Inr (), (w, calls))"
    if neg: "\<exists>m. maxRetries c = Some m \<and> m < 0"
  proof -
    from neg obtain m where m: "maxRetries c = Some m" "m < 0"
      by blast
    with fields(2) have kept: "maxRetries c' = Some m"
      by simp
    then have stop: "\<not> retries_left 0 (maxRetries c')"
      using m(2) by (simp add: retries_left_def)
    have plain: "copyObject_loop s3c c' key dstKey sz express False 0 w = ((False, 0), w)"
      using stop by (subst copyObject_loop_pass) simp
    have "copyObject_loop (recording s3c) c' key k' sz express False 0 (w, calls) =
            ((False, 0), (w, calls))" for k'
      using stop by (subst copyObject_loop_pass) simp
    with kept m(1) plain show ?thesis
      by (simp add: copyObject_def Let_def)
  qed
  from made fields passes none show ?thesis
    by (intro exI [of _ c']) auto
qed

theorem constructor_defaults_witness:
  "constructor (Some (example_config\<lparr>maxRetries := Some 0, maxNumThreads := None\<rparr>)) =
     Inr example_config \<and>
   maxRetries (example_config\<lparr>maxRetries := Some 0, maxNumThreads := None\<rparr>) = Some 0 \<and>
   maxNumThreads example_config = Some 15 \<and> maxRetries example_config = Some 5 \<and>
   (fst (fst (copyObject_loop store_client example_config ''a/x'' ''b/x'' 10 False False 0
               (example_store\<lparr>rejects := always\<rparr>))) \<or>
    0 < snd (fst (copyObject_loop store_client example_config ''a/x'' ''b/x'' 10 False False 0
               (example_store\<lparr>rejects := always\<rparr>)))) \<and>
   constructor (Some (example_config\<lparr>maxRetries := Some (- 3)\<rparr>)) =
     Inr (example_config\<lparr>maxRetries := Some (- 3)\<rparr>) \<and>
   copyObject_loop store_client (example_config\<lparr>maxRetries := Some (- 3)\<rparr>)
       ''a/x'' ''b/x'' 10 True False 0 example_store = ((False, 0), example_store) \<and>
   copyObject (recording store_client) (example_config\<lparr>maxRetries := Some (- 3)\<rparr>)
       ''a/x'' 10 True (example_store, []) = (Inr (), (example_store, []))"
proof -
  have made: "constructor (Some (example_config\<lparr>maxRetries := Some 0, maxNumThreads := None\<rparr>)) =
     Inr example_config"
    by (simp add: constructor_Some falsy_def example_config_def)
  have nonneg: "\<forall>m. maxRetries (example_config\<lparr>maxRetries := Some 0, maxNumThreads := None\<rparr>) = Some m
        \<longrightarrow> 0 \<le> m"
    by simp
  from constructor_defaults
         [of "example_config\<lparr>maxRetries := Some 0, maxNumThreads := None\<rparr>" store_client
             "''a/x''" "''b/x''" 10 False "example_store\<lparr>rejects := always\<rparr>"]
       nonneg made
  have first: "constructor (Some (example_config\<lparr>maxRetries := Some 0, maxNumThreads := None\<rparr>)) =
     Inr example_config \<and>
   maxRetries (example_config\<lparr>maxRetries := Some 0, maxNumThreads := None\<rparr>) = Some 0 \<and>
   maxNumThreads example_config = Some 15 \<and> maxRetries example_config = Some 5 \<and>
   (fst (fst (copyObject_loop store_client example_config ''a/x'' ''b/x'' 10 False False 0
               (example_store\<lparr>rejects := always\<rparr>))) \<or>
    0 < snd (fst (copyObject_loop store_client example_config ''a/x'' ''b/x'' 10 False False 0
               (example_store\<lparr>rejects := always\<rparr>))))"
    by auto
  have kept: "constructor (Some (example_config\<lparr>maxRetries := Some (- 3)\<rparr>)) =
     Inr (example_config\<lparr>maxRetries := Some (- 3)\<rparr>)"
    by (simp add: constructor_Some falsy_def example_config_def)
  have neg: "\<exists>m. maxRetries (example_config\<lparr>maxRetries := Some (- 3)\<rparr>) = Some m \<and> m < 0"
    by simp
  from constructor_defaults
         [of "example_config\<lparr>maxRetries := Some (- 3)\<rparr>" store_client
             "''a/x''" "''b/x''" 10 True example_store "[]"]
       neg kept
  have second: "constructor (Some (example_config\<lparr>maxRetries := Some (- 3)\<rparr>)) =
     Inr (example_config\<lparr>maxRetries := Some (- 3)\<rparr>) \<and>
   copyObject_loop store_client (example_config\<lparr>maxRetries := Some (- 3)\<rparr>)
       ''a/x'' ''b/x'' 10 True False 0 example_store = ((False, 0), example_store) \<and>
   copyObject (recording store_client) (example_config\<lparr>maxRetries := Some (- 3)\<rparr>)
       ''a/x'' 10 True (example_store, []) = (Inr (), (example_store, []))"
    by auto
  from first second show ?thesis
    by simp
qed

theorem negative_maxRetries_counterexample:
  "constructor (Some (example_config\<lparr>maxRetries := Some (- 1)\<rparr>)) =
     Inr (example_config\<lparr>maxRetries := Some (- 1)\<rparr>) \<and>
   copyObject_loop store_client (example_config\<lparr>maxRetries := Some (- 1)\<rparr>)
       ''a/x'' ''b/x'' 10 False False 0 example_store = ((False, 0), example_store) \<and>
   copyObject (recording store_client) (example_config\<lparr>maxRetries := Some (- 1)\<rparr>)
       ''a/x'' 10 False (example_store, []) = (Inr (), (example_store, []))"
  by (simp add: constructor_Some falsy_def example_config_def copyObject_def copyObject_loop_pass
        retries_left_def Let_def)

text \<open>
  C9, as amended. The constructor fails when the configuration itself is null or
  undefined, and never otherwise: a configuration object is accepted with any of its
  fields missing, and its clients, buckets and prefixes are stored as they came. The
  constructor performs no input or output.
\<close>

theorem constructor_checks_only_config:
  "constructor None = Inl (RequireError ''config'') \<and>
   (\<exists>c'. constructor (Some c) = Inr c' \<and>
      srcS3 c' = srcS3 c \<and> srcBucket c' = srcBucket c \<and> srcPrefix c' = srcPrefix c \<and>
      dstS3 c' = dstS3 c \<and> dstBucket c' = dstBucket c \<and> dstPrefix c' = dstPrefix c)"
  by (simp add: constructor_Some) (simp add: constructor_def notNullOrUndefined_def)

theorem missing_fields_counterexample:
  "constructor (Some \<lparr>srcS3 = None, srcBucket = None, srcPrefix = None, dstS3 = None,
                       dstBucket = None, dstPrefix = None, maxNumThreads = None,
                       maxRetries = None\<rparr>) =
     Inr \<lparr>srcS3 = None, srcBucket = None, srcPrefix = None, dstS3 = None,
          dstBucket = None, dstPrefix = None, maxNumThreads = Some 15, maxRetries = Some 5\<rparr>"
  by (simp add: constructor_Some falsy_def)

subsection \<open>The translated key\<close>

lemma indexOf_prefix: "indexOf (p @ rest) p = Some 0"
  by simp

lemma GetSubstitution_plain:
  "CHR ''$'' \<notin> set replaceValue \<Longrightarrow> GetSubstitution matched str position replaceValue = replaceValue"
  by (induction matched str position replaceValue rule: GetSubstitution.induct) auto

text \<open>
  For a key that starts with the source prefix and a destination prefix without a dollar
  sign, the translated key is the key with the one prefix put for the other.
\<close>

lemma replace_prefix:
  "CHR ''$'' \<notin> set q \<Longrightarrow> replace (p @ rest) p q = q @ rest"
  by (simp add: replace_def GetSubstitution_plain)

lemma replace_keyTranslate:
  "prefix sp k \<Longrightarrow> CHR ''$'' \<notin> set dp \<Longrightarrow> replace k sp dp = keyTranslate sp dp k"
  by (auto simp: prefix_def replace_prefix keyTranslate_def)

text \<open>
  C8. The claim fails where the destination prefix holds a dollar pattern: \<open>replace\<close>
  expands \<open>$$\<close> to one dollar sign, so that with the prefixes \<open>a/\<close> and \<open>b$$/\<close> the key
  \<open>a/x\<close> is translated to \<open>b$/x\<close>, which is not under the destination prefix. Both
  \<open>copyObject\<close> (the key of its upload) and the comparison (which finds the object
  \<open>b$$/x\<close> of the destination listing absent) use this key.
\<close>

theorem translated_key_expands_dollar:
  "replace ''a/x'' (ToString (Some ''a/'')) (ToString (Some ''b$$/'')) = ''b$/x'' \<and>
   snd (snd (copyObject (recording store_client) (example_config\<lparr>dstPrefix := Some ''b$$/''\<rparr>)
               ''a/x'' 10 False (example_store, []))) =
     [(UploadCall ''dst-client''
         \<lparr>put_Bucket = Some ''backup'', put_Key = ''b$/x'',
          Body = (''src-client'', Some ''source'', ''a/x''), ContentLength = 10\<rparr>, True)] \<and>
   compare_key (example_config\<lparr>dstPrefix := Some ''b$$/''\<rparr>)
       [(''a/x'', \<lparr>Key = ''a/x'', ETag = ''e1'', Size = 10, LastModified = 3\<rparr>)]
       [(''b$$/x'', \<lparr>Key = ''b$$/x'', ETag = ''e1'', Size = 10, LastModified = 9\<rparr>)]
       ''a/x'' \<lparr>needCopy = [], existed = [], diff = []\<rparr> =
     (Inr (), \<lparr>needCopy = [\<lparr>Key = ''a/x'', ETag = ''e1'', Size = 10, LastModified = 3\<rparr>],
               existed = [], diff = []\<rparr>)"
  by (simp add: replace_def ToString_def copyObject_def copyObject_loop_pass copy_attempt_def
        recording_def store_client_def store_upload_def store_put_def example_config_def
        example_store_def example_objects_def tick_def never_def retries_left_def compare_key_def
        hasOwnProperty_def Let_def)

subsection \<open>The run\<close>

lemma startSyncing_unfold:
  "startSyncing s3c c w =
     (case compareSrcAndDst s3c c w of
        None \<Rightarrow> None
      | Some (Inl e, w1) \<Rightarrow> Some (Inl e, w1)
      | Some (Inr cmp, w1) \<Rightarrow>
          if needCopy cmp = [] \<and> diff cmp = [] then Some (Inr True, w1)
          else (case compareSrcAndDst s3c c (copied s3c c cmp w1) of
                  None \<Rightarrow> None
                | Some (Inl e, w4) \<Rightarrow> Some (Inl e, w4)
                | Some (Inr cmp', w4) \<Rightarrow> Some (Inr (needCopy cmp' = [] \<and> diff cmp' = []), w4)))"
proof -
  have phase: "\<exists>w2. runBoundedParallelSingleParam (cp s3c c) objs w0 = (Inr (), w2)" for objs w0
    using copy_phase_returns [of s3c c objs w0]
    by (cases "runBoundedParallelSingleParam (cp s3c c) objs w0") simp
  show ?thesis
  proof (cases "compareSrcAndDst s3c c w")
    case None
    then show ?thesis by (simp add: startSyncing_def)
  next
    case (Some a)
    obtain r w1 where a: "a = (r, w1)" by (cases a)
    show ?thesis
    proof (cases r)
      case (Inl e)
      with Some a show ?thesis by (simp add: startSyncing_def)
    next
      case (Inr cmp)
      show ?thesis
      proof (cases "needCopy cmp = [] \<and> diff cmp = []")
        case True
        with Some a Inr show ?thesis by (simp add: startSyncing_def)
      next
        case False
        from phase obtain w2 where
          run1: "runBoundedParallelSingleParam (cp s3c c) (needCopy cmp) w1 = (Inr (), w2)"
          by blast
        from phase obtain w3 where
          run2: "runBoundedParallelSingleParam (cp s3c c) (diff cmp) w2 = (Inr (), w3)"
          by blast
        have w3: "copied s3c c cmp w1 = w3"
          by (simp add: copied_def run1 run2)
        have "startSyncing s3c c w =
            (case compareSrcAndDst s3c c w3 of
                  None \<Rightarrow> None
                | Some (Inl e, w4) \<Rightarrow> Some (Inl e, w4)
                | Some (Inr cmp', w4) \<Rightarrow> Some (Inr (needCopy cmp' = [] \<and> diff cmp' = []), w4))"
          using False
          by (auto simp add: startSyncing_def Some a Inr run1 run2 split: option.splits sum.splits)
        with Some a Inr False w3 show ?thesis by auto
      qed
    qed
  qed
qed

text \<open>A listing makes listing calls only.\<close>

lemma fetches_recording:
  "fetches cl h params wc pages r wc' \<Longrightarrow> cl = recording s3c \<Longrightarrow>
   \<exists>ls. snd wc' = snd wc @ ls \<and> (\<forall>a \<in> set ls. is_listing (fst a))"
proof (induction rule: fetches.induct)
  case (last_page params w response w')
  then show ?case
    by (cases w) (auto simp: recording_def is_listing_def split: prod.splits)
next
  case (rejected params w e w')
  then show ?case
    by (cases w) (auto simp: recording_def is_listing_def split: prod.splits)
next
  case (next_page params w response w1 pages r w')
  from next_page.hyps(1) next_page.prems
  have "\<exists>l. snd w1 = snd w @ [l] \<and> is_listing (fst l)"
    by (cases w) (auto simp: recording_def is_listing_def split: prod.splits)
  then obtain l where l: "snd w1 = snd w @ [l]" "is_listing (fst l)"
    by blast
  from next_page.IH [OF next_page.prems] obtain ls where
    "snd w' = snd w1 @ ls" "\<forall>a \<in> set ls. is_listing (fst a)"
    by blast
  with l show ?case
    by (intro exI [of _ "l # ls"]) simp
qed

lemma listObjects_recording:
  assumes "listObjects (recording s3c) bucket pfx s3 wc = Some (r, wc')"
  shows "\<exists>ls. snd wc' = snd wc @ ls \<and> (\<forall>a \<in> set ls. is_listing (fst a))"
proof (cases s3)
  case None
  with assms have "wc' = wc"
    by (simp add: listObjects_def listObjects_loop.simps)
  then show ?thesis by simp
next
  case (Some h)
  from listObjects_loop_fetches [OF assms [unfolded listObjects_def], of h] Some
  obtain pages e where
    "fetches (recording s3c) h \<lparr>Bucket = bucket, Prefix = pfx, ContinuationToken = None\<rparr> wc pages e wc'"
    by auto
  from fetches_recording [OF this refl] show ?thesis .
qed

lemma compareSrcAndDst_recording:
  assumes "compareSrcAndDst (recording s3c) c wc = Some (r, wc')"
  shows "\<exists>ls. snd wc' = snd wc @ ls \<and> (\<forall>a \<in> set ls. is_listing (fst a))"
proof -
  from assms obtain getSrc w1 where
    l1: "listObjects (recording s3c) (srcBucket c) (srcPrefix c) (srcS3 c) wc = Some (getSrc, w1)"
    by (auto simp: compareSrcAndDst_def split: option.splits)
  from assms l1 obtain getDst w2 where
    l2: "listObjects (recording s3c) (dstBucket c) (dstPrefix c) (dstS3 c) w1 = Some (getDst, w2)"
    by (auto simp: compareSrcAndDst_def split: option.splits)
  from assms l1 l2 have w2: "wc' = w2"
    by (auto simp: compareSrcAndDst_def split: sum.splits prod.splits)
  from listObjects_recording [OF l1] listObjects_recording [OF l2]
  obtain ls1 ls2 where "snd w1 = snd wc @ ls1" "\<forall>a \<in> set ls1. is_listing (fst a)"
    "snd w2 = snd w1 @ ls2" "\<forall>a \<in> set ls2. is_listing (fst a)"
    by blast
  then show ?thesis
    unfolding w2 by (intro exI [of _ "ls1 @ ls2"]) auto
qed

text \<open>The three ways in which a run returns.\<close>

lemma startSyncing_cases:
  assumes "startSyncing s3c c w = Some (res, w')"
  shows
    "(\<exists>cmp. compareSrcAndDst s3c c w = Some (Inr cmp, w') \<and>
         needCopy cmp = [] \<and> diff cmp = [] \<and> res = Inr True) \<or>
     (\<exists>cmp w1 cmp'. compareSrcAndDst s3c c w = Some (Inr cmp, w1) \<and>
         (needCopy cmp \<noteq> [] \<or> diff cmp \<noteq> []) \<and>
         compareSrcAndDst s3c c (copied s3c c cmp w1) = Some (Inr cmp', w') \<and>
         res = Inr (needCopy cmp' = [] \<and> diff cmp' = [])) \<or>
     (\<exists>e. res = Inl e \<and>
         (compareSrcAndDst s3c c w = Some (Inl e, w') \<or>
          (\<exists>cmp w1. compareSrcAndDst s3c c w = Some (Inr cmp, w1) \<and>
             (needCopy cmp \<noteq> [] \<or> diff cmp \<noteq> []) \<and>
             compareSrcAndDst s3c c (copied s3c c cmp w1) = Some (Inl e, w'))))"
proof -
  from assms obtain a where first: "compareSrcAndDst s3c c w = Some a"
    by (cases "compareSrcAndDst s3c c w") (simp_all add: startSyncing_unfold)
  obtain r w1 where a: "a = (r, w1)" by (cases a)
  show ?thesis
  proof (cases r)
    case (Inl e)
    with assms first a have "res = Inl e" "w' = w1"
      by (simp_all add: startSyncing_unfold)
    with first a Inl show ?thesis by simp
  next
    case (Inr cmp)
    show ?thesis
    proof (cases "needCopy cmp = [] \<and> diff cmp = []")
      case True
      with assms first a Inr have "res = Inr True" "w' = w1"
        by (simp_all add: startSyncing_unfold)
      with first a Inr True show ?thesis by simp
    next
      case False
      with assms first a Inr obtain b where
        second: "compareSrcAndDst s3c c (copied s3c c cmp w1) = Some b"
        by (cases "compareSrcAndDst s3c c (copied s3c c cmp w1)") (simp_all add: startSyncing_unfold)
      obtain r' w4 where b: "b = (r', w4)" by (cases b)
      show ?thesis
      proof (cases r')
        case (Inl e)
        with assms first a Inr False second b have "res = Inl e" "w' = w4"
          by (simp_all add: startSyncing_unfold)
        with first a Inr False second b Inl show ?thesis by auto
      next
        case (Inr cmp')
        with assms first a \<open>r = Inr cmp\<close> False second b
        have "res = Inr (needCopy cmp' = [] \<and> diff cmp' = [])" "w' = w4"
          by (simp_all add: startSyncing_unfold)
        with first a \<open>r = Inr cmp\<close> False second b Inr show ?thesis by auto
      qed
    qed
  qed
qed



text \<open>Unfolding the definitions evaluates the methods on the example.\<close>

lemmas example_defs =
  example_config_def example_store_def example_objects_def never_def always_def
  first_two_def uploads_fail_def on_second_def

lemmas store_defs =
  store_client_def store_listObjectsV2_def store_upload_def store_copyObject_def store_put_def
  under_prefix_def tick_def

lemmas sync_defs =
  startSyncing_def compareSrcAndDst_def listObjects_def listObjects_loop.simps assign_def
  compare_key_def hasOwnProperty_def cp_def copyObject_def copyObject_loop_pass copy_attempt_def
  retries_left_def replace_def ToString_def Let_def

subsection \<open>The methods on the reference store\<close>

lemma same_setup_refl [simp]: "same_setup w w"
  by (simp add: same_setup_def)

lemma same_setup_trans: "same_setup w w1 \<Longrightarrow> same_setup w1 w2 \<Longrightarrow> same_setup w w2"
  by (auto simp: same_setup_def)

lemma same_setup_tick [simp]: "same_setup w (tick w)"
  by (simp add: same_setup_def tick_def)

lemma buckets_tick [simp]: "buckets (tick w) = buckets w"
  by (simp add: tick_def)

lemma store_listObjectsV2_frame:
  "s3_listObjectsV2 store_client h req w = (r, w') \<Longrightarrow> w' = tick w"
  by (auto simp: store_client_def store_listObjectsV2_def Let_def split: if_splits option.splits)

text \<open>The loop of \<open>listObjects\<close> on the store, from any offset.\<close>

lemma store_listObjects_loop:
  assumes "buckets w = B" "page_size w = ps" "rejects w = rj"
  shows "\<exists>r w'. listObjects_loop store_client (Some h)
            \<lparr>Bucket = Some b, Prefix = pfx, ContinuationToken = tok\<rparr> rval w = Some (r, w') \<and>
          buckets w' = B \<and> same_setup w w' \<and>
          (\<forall>m. r = Inr m \<longrightarrow>
             m = fold (\<lambda>obj. assign (Key obj)
                    \<lparr>Key = Key obj, ETag = ETag obj, Size = Size obj, LastModified = LastModified obj\<rparr>)
                  (drop (case tok of None \<Rightarrow> 0 | Some t \<Rightarrow> length t) (under_prefix pfx (B b))) rval) \<and>
          ((\<forall>n. \<not> rj n) \<longrightarrow> \<not> isl r)"
  using assms
proof (induction "length (under_prefix pfx (B b)) - (case tok of None \<Rightarrow> 0 | Some t \<Rightarrow> length t)"
        arbitrary: tok rval w rule: less_induct)
  case less
  let ?items = "under_prefix pfx (B b)"
  let ?off = "case tok of None \<Rightarrow> 0 | Some t \<Rightarrow> length t"
  let ?n = "max 1 ps"
  let ?upd = "\<lambda>obj. assign (Key obj)
                    \<lparr>Key = Key obj, ETag = ETag obj, Size = Size obj, LastModified = LastModified obj\<rparr>"
  let ?req = "\<lparr>Bucket = Some b, Prefix = pfx, ContinuationToken = tok\<rparr>"
  show ?case
  proof (cases "rj (served w)")
    case True
    have "listObjects_loop store_client (Some h) ?req rval w = Some (Inl (AWSError ''Rejected''), tick w)"
      using True less.prems
      by (subst listObjects_loop.simps) (simp add: store_client_def store_listObjectsV2_def)
    with True less.prems show ?thesis
      by auto
  next
    case False
    let ?page = "\<lparr>Contents = take ?n (drop ?off ?items),
                  IsTruncated = (?off + ?n < length ?items),
                  NextContinuationToken =
                    (if ?off + ?n < length ?items then Some (replicate (?off + ?n) (CHR ''+'')) else None)\<rparr>"
    have call: "s3_listObjectsV2 store_client h ?req w = (Inr ?page, tick w)"
      using False less.prems
      by (simp add: store_client_def store_listObjectsV2_def Let_def)
    show ?thesis
    proof (cases "?off + ?n < length ?items")
      case last: False
      have "listObjects_loop store_client (Some h) ?req rval w =
              Some (Inr (fold ?upd (take ?n (drop ?off ?items)) rval), tick w)"
        using last by (subst listObjects_loop.simps) (simp add: call Let_def)
      moreover have "take ?n (drop ?off ?items) = drop ?off ?items"
        using last by simp
      ultimately show ?thesis
        using less.prems by auto
    next
      case more: True
      let ?tok' = "Some (replicate (?off + ?n) (CHR ''+''))"
      let ?rval' = "fold ?upd (take ?n (drop ?off ?items)) rval"
      have unfold: "listObjects_loop store_client (Some h) ?req rval w =
              listObjects_loop store_client (Some h)
                \<lparr>Bucket = Some b, Prefix = pfx, ContinuationToken = ?tok'\<rparr> ?rval' (tick w)"
        using more by (subst listObjects_loop.simps) (simp add: call Let_def)
      have smaller: "length ?items - (case ?tok' of None \<Rightarrow> 0 | Some t \<Rightarrow> length t)
                      < length ?items - ?off"
        using more by simp
      from less.hyps [OF smaller, of "tick w" ?rval'] less.prems
      obtain r w' where rec:
        "listObjects_loop store_client (Some h)
           \<lparr>Bucket = Some b, Prefix = pfx, ContinuationToken = ?tok'\<rparr> ?rval' (tick w) = Some (r, w')"
        "buckets w' = B" "same_setup (tick w) w'"
        "\<forall>m. r = Inr m \<longrightarrow> m = fold ?upd (drop (?off + ?n) ?items) ?rval'"
        "(\<forall>n. \<not> rj n) \<longrightarrow> \<not> isl r"
        by (auto simp: tick_def)
      have "fold ?upd (drop (?off + ?n) ?items) ?rval' = fold ?upd (drop ?off ?items) rval"
      proof -
        have "drop ?off ?items = take ?n (drop ?off ?items) @ drop (?off + ?n) ?items"
          by (metis append_take_drop_id drop_drop add.commute)
        then have "fold ?upd (drop ?off ?items) rval =
                   fold ?upd (take ?n (drop ?off ?items) @ drop (?off + ?n) ?items) rval"
          by simp
        then show ?thesis
          by (simp only: fold_append comp_def)
      qed
      with rec unfold same_setup_trans [OF same_setup_tick rec(3)] show ?thesis
        by auto
    qed
  qed
qed


lemma store_listObjects:
  "\<exists>r w'. listObjects store_client bucket pfx s3 w = Some (r, w') \<and>
      buckets w' = buckets w \<and> same_setup w w' \<and>
      (\<forall>m. r = Inr m \<longrightarrow> (\<exists>b. bucket = Some b \<and> m = listed pfx (buckets w b))) \<and>
      ((\<forall>n. \<not> rejects w n) \<and> s3 \<noteq> None \<and> bucket \<noteq> None \<longrightarrow> \<not> isl r)"
proof (cases s3)
  case None
  then have "listObjects store_client bucket pfx s3 w = Some (Inl TypeError, w)"
    by (simp add: listObjects_def listObjects_loop.simps)
  with None show ?thesis by simp
next
  case (Some h)
  show ?thesis
  proof (cases bucket)
    case None
    have "listObjects store_client bucket pfx s3 w =
            Some (Inl (AWSError (if rejects w (served w) then ''Rejected'' else ''MissingRequiredParameter'')),
                  tick w)"
      unfolding listObjects_def Some None
      by (subst listObjects_loop.simps) (simp add: store_client_def store_listObjectsV2_def)
    with None show ?thesis by simp
  next
    case b: (Some b)
    from store_listObjects_loop
           [OF refl refl refl, where ?w = w and ?h = h and ?b = b and ?pfx = pfx and ?tok = None
                                 and ?rval = "[]"]
    show ?thesis
      unfolding listObjects_def Some b listed_def by auto
  qed
qed

lemma store_compareSrcAndDst:
  "\<exists>r w'. compareSrcAndDst store_client c w = Some (r, w') \<and>
      buckets w' = buckets w \<and> same_setup w w' \<and>
      (\<forall>cmp. r = Inr cmp \<longrightarrow>
         (\<exists>sb db. srcBucket c = Some sb \<and> dstBucket c = Some db \<and>
            cmp = \<lparr>needCopy = classified c NeedsCopy (listed (srcPrefix c) (buckets w sb))
                                 (listed (dstPrefix c) (buckets w db)),
                   existed = classified c Unchanged (listed (srcPrefix c) (buckets w sb))
                                 (listed (dstPrefix c) (buckets w db)),
                   diff = classified c Conflicting (listed (srcPrefix c) (buckets w sb))
                                 (listed (dstPrefix c) (buckets w db))\<rparr>)) \<and>
      ((\<forall>n. \<not> rejects w n) \<and> srcS3 c \<noteq> None \<and> srcBucket c \<noteq> None \<and>
         dstS3 c \<noteq> None \<and>
         (\<exists>db. dstBucket c = Some db \<and>
            map_of (listed (dstPrefix c) (buckets w db)) ''hasOwnProperty'' = None) \<longrightarrow> \<not> isl r)"
proof -
  from store_listObjects [of "srcBucket c" "srcPrefix c" "srcS3 c" w]
  obtain r1 w1 where l1:
    "listObjects store_client (srcBucket c) (srcPrefix c) (srcS3 c) w = Some (r1, w1)"
    "buckets w1 = buckets w" "same_setup w w1"
    "\<forall>m. r1 = Inr m \<longrightarrow> (\<exists>b. srcBucket c = Some b \<and> m = listed (srcPrefix c) (buckets w b))"
    "(\<forall>n. \<not> rejects w n) \<and> srcS3 c \<noteq> None \<and> srcBucket c \<noteq> None \<longrightarrow> \<not> isl r1"
    by blast
  from store_listObjects [of "dstBucket c" "dstPrefix c" "dstS3 c" w1]
  obtain r2 w2 where l2:
    "listObjects store_client (dstBucket c) (dstPrefix c) (dstS3 c) w1 = Some (r2, w2)"
    "buckets w2 = buckets w1" "same_setup w1 w2"
    "\<forall>m. r2 = Inr m \<longrightarrow> (\<exists>b. dstBucket c = Some b \<and> m = listed (dstPrefix c) (buckets w1 b))"
    "(\<forall>n. \<not> rejects w1 n) \<and> dstS3 c \<noteq> None \<and> dstBucket c \<noteq> None \<longrightarrow> \<not> isl r2"
    by blast
  have same: "same_setup w w2"
    using l1(3) l2(3) by (rule same_setup_trans)
  have rj: "rejects w1 = rejects w"
    using l1(3) by (simp add: same_setup_def)
  show ?thesis
  proof (cases r1)
    case (Inl e)
    then have "compareSrcAndDst store_client c w = Some (Inl e, w2)"
      by (simp add: compareSrcAndDst_def l1(1) l2(1))
    with Inl l1 l2 same show ?thesis by auto
  next
    case src: (Inr srcObjs)
    show ?thesis
    proof (cases r2)
      case (Inl e)
      then have "compareSrcAndDst store_client c w = Some (Inl e, w2)"
        by (simp add: compareSrcAndDst_def l1(1) l2(1) src)
      with Inl l1 l2 same rj show ?thesis by auto
    next
      case dst: (Inr dstObjs)
      from l1(4) src obtain sb where sb: "srcBucket c = Some sb"
        "srcObjs = listed (srcPrefix c) (buckets w sb)"
        by auto
      from l2(4) dst l1(2) obtain db where db: "dstBucket c = Some db"
        "dstObjs = listed (dstPrefix c) (buckets w db)"
        by auto
      note run = compareSrcAndDst_of_listings [OF l1(1) [unfolded src] l2(1) [unfolded dst]]
      show ?thesis
      proof (cases "srcObjs \<noteq> [] \<and> map_of dstObjs ''hasOwnProperty'' \<noteq> None")
        case True
        with run have "compareSrcAndDst store_client c w = Some (Inl TypeError, w2)"
          by simp
        with True db l1(2) l2(2) same show ?thesis by auto
      next
        case False
        with run have "compareSrcAndDst store_client c w =
          Some (Inr \<lparr>needCopy = classified c NeedsCopy srcObjs dstObjs,
                     existed = classified c Unchanged srcObjs dstObjs,
                     diff = classified c Conflicting srcObjs dstObjs\<rparr>, w2)"
          by simp
        with sb db l1(2) l2(2) same show ?thesis by auto
      qed
    qed
  qed
qed

subsection \<open>What a run writes\<close>

lemma wrote_only_refl [simp]: "wrote_only db K w w"
  by (simp add: wrote_only_def)

lemma wrote_only_same_buckets:
  "buckets w' = buckets w \<Longrightarrow> same_setup w w' \<Longrightarrow> wrote_only db K w w'"
  by (simp add: wrote_only_def)

lemma wrote_only_trans:
  "wrote_only db K1 w w1 \<Longrightarrow> wrote_only db K2 w1 w2 \<Longrightarrow> wrote_only db (K1 \<union> K2) w w2"
  unfolding wrote_only_def
  by (auto intro: same_setup_trans)

lemma wrote_only_mono: "wrote_only db K w w' \<Longrightarrow> K \<subseteq> K' \<Longrightarrow> wrote_only db K' w w'"
  unfolding wrote_only_def by (auto simp: subset_iff)

lemma filter_update_other:
  "\<not> P k \<Longrightarrow> filter (\<lambda>(k', obj). P k') (AList.update k v al) = filter (\<lambda>(k', obj). P k') al"
  by (induction al) auto

lemma wrote_only_put: "wrote_only (Some b) {k} w (tick (store_put b k src w))"
  by (auto simp: wrote_only_def same_setup_def tick_def store_put_def filter_update_other
        distinct_update)

lemma wrote_only_tick: "wrote_only db K w (tick w)"
  by (simp add: wrote_only_same_buckets)

lemma map_of_filter_key:
  "map_of (filter (\<lambda>(k', obj). k' = k) al) k = map_of al k"
  by (induction al) auto

lemma wrote_only_filter:
  "wrote_only db K w w' \<Longrightarrow> (\<And>k. k \<in> K \<Longrightarrow> \<not> P k) \<Longrightarrow>
   filter (\<lambda>(k, obj). P k) (buckets w' b) = filter (\<lambda>(k, obj). P k) (buckets w b)"
  unfolding wrote_only_def by simp

lemma wrote_only_map_of:
  assumes "wrote_only db K w w'" "k \<notin> K"
  shows "map_of (buckets w' b) k = map_of (buckets w b) k"
proof -
  have "filter (\<lambda>(k', obj). k' = k) (buckets w' b) = filter (\<lambda>(k', obj). k' = k) (buckets w b)"
    using assms(1) by (rule wrote_only_filter) (use assms(2) in auto)
  then show ?thesis
    using map_of_filter_key [of k "buckets w' b"] map_of_filter_key [of k "buckets w b"] by simp
qed

lemma store_copy_attempt_writes:
  "copy_attempt store_client c key dstKey sz express w = (r, w') \<Longrightarrow>
   wrote_only (dstBucket c) {dstKey} w w'"
  by (auto simp: copy_attempt_def store_client_def store_upload_def store_copyObject_def
        wrote_only_put wrote_only_tick split: if_splits option.splits)

lemma store_copyObject_loop_writes:
  "copyObject_loop cl c key dstKey sz express completedCopying retries w = (locals, w') \<Longrightarrow>
   cl = store_client \<Longrightarrow> wrote_only (dstBucket c) {dstKey} w w'"
proof (induction cl c key dstKey sz express completedCopying retries w
        arbitrary: locals w' rule: copyObject_loop.induct)
  case (1 cl c key dstKey sz express completedCopying retries w)
  note cl = \<open>cl = store_client\<close>
  show ?case
  proof (cases "\<not> completedCopying \<and> retries_left retries (maxRetries c)")
    case False
    with "1.prems" have "w' = w"
      by (auto simp: copyObject_loop_pass [of _ _ _ _ _ _ completedCopying retries])
    then show ?thesis by simp
  next
    case True
    obtain r w1 where att: "copy_attempt cl c key dstKey sz express w = (r, w1)"
      by (cases "copy_attempt cl c key dstKey sz express w")
    have first: "wrote_only (dstBucket c) {dstKey} w w1"
      using att unfolding cl by (rule store_copy_attempt_writes)
    have "wrote_only (dstBucket c) {dstKey} w1 w'"
    proof (cases r)
      case (Inr u)
      with True att "1.prems"
      have run: "copyObject_loop cl c key dstKey sz express True retries w1 = (locals, w')"
        by (subst (asm) copyObject_loop_pass) simp
      from "1.IH"(2) [OF True att [symmetric] Inr run cl] show ?thesis .
    next
      case (Inl e)
      with True att "1.prems"
      have run: "copyObject_loop cl c key dstKey sz express completedCopying (retries + 1) w1 = (locals, w')"
        by (subst (asm) copyObject_loop_pass) simp
      from "1.IH"(1) [OF True att [symmetric] Inl run cl] show ?thesis .
    qed
    with first have "wrote_only (dstBucket c) ({dstKey} \<union> {dstKey}) w w'"
      by (rule wrote_only_trans)
    then show ?thesis by simp
  qed
qed

lemma store_cp_writes:
  "wrote_only (dstBucket c)
     {replace (Key obj) (ToString (srcPrefix c)) (ToString (dstPrefix c))}
     w (snd (cp store_client c obj w))"
proof -
  let ?dstKey = "replace (Key obj) (ToString (srcPrefix c)) (ToString (dstPrefix c))"
  obtain locals w' where
    loop: "copyObject_loop store_client c (Key obj) ?dstKey (Size obj) False False 0 w = (locals, w')"
    by (cases "copyObject_loop store_client c (Key obj) ?dstKey (Size obj) False False 0 w")
  then have "snd (cp store_client c obj w) = w'"
    by (simp add: cp_def copyObject_def Let_def)
  with store_copyObject_loop_writes [OF loop refl] show ?thesis by simp
qed

lemma store_copy_phase_writes:
  "wrote_only (dstBucket c)
     ((\<lambda>obj. replace (Key obj) (ToString (srcPrefix c)) (ToString (dstPrefix c))) ` set objs)
     w (snd (runBoundedParallelSingleParam (cp store_client c) objs w))"
proof (induction objs arbitrary: w)
  case Nil
  then show ?case by simp
next
  case (Cons obj objs)
  obtain r w1 where step: "cp store_client c obj w = (r, w1)"
    by (cases "cp store_client c obj w")
  from copyObject_returns [of store_client c "Key obj" "Size obj" False w] step
  have r: "r = Inr ()" by (simp add: cp_def)
  have run: "runBoundedParallelSingleParam (cp store_client c) (obj # objs) w =
             runBoundedParallelSingleParam (cp store_client c) objs w1"
    using step r by simp
  from store_cp_writes [of c obj w] step
  have "wrote_only (dstBucket c)
     {replace (Key obj) (ToString (srcPrefix c)) (ToString (dstPrefix c))} w w1"
    by simp
  from wrote_only_trans [OF this Cons.IH [of w1]] show ?case
    unfolding run by simp
qed

lemma store_copied_writes:
  "wrote_only (dstBucket c)
     ((\<lambda>obj. replace (Key obj) (ToString (srcPrefix c)) (ToString (dstPrefix c)))
        ` set (needCopy cmp @ diff cmp))
     w (copied store_client c cmp w)"
proof -
  let ?w2 = "snd (runBoundedParallelSingleParam (cp store_client c) (needCopy cmp) w)"
  have one: "wrote_only (dstBucket c)
     ((\<lambda>obj. replace (Key obj) (ToString (srcPrefix c)) (ToString (dstPrefix c))) ` set (needCopy cmp))
     w ?w2"
    by (rule store_copy_phase_writes)
  have two: "wrote_only (dstBucket c)
     ((\<lambda>obj. replace (Key obj) (ToString (srcPrefix c)) (ToString (dstPrefix c))) ` set (diff cmp))
     ?w2 (copied store_client c cmp w)"
    unfolding copied_def by (rule store_copy_phase_writes)
  from wrote_only_trans [OF one two] show ?thesis
    by (simp add: image_Un)
qed

text \<open>The objects that a comparison on the store sorts are objects of its source listing.\<close>

lemma set_update_subset:
  "(k', v') \<in> set (AList.update k v al) \<Longrightarrow> (k', v') = (k, v) \<or> (k', v') \<in> set al"
  by (induction al) (auto split: if_splits)

lemma set_fold_update:
  "(k, v) \<in> set (fold (\<lambda>obj. assign (Key obj) (f obj)) xs rval) \<Longrightarrow>
   (k, v) \<in> set rval \<or> (\<exists>obj \<in> set xs. k = Key obj \<and> v = f obj)"
proof (induction xs arbitrary: rval)
  case Nil
  then show ?case by simp
next
  case (Cons x xs)
  from Cons.IH [of "assign (Key x) (f x) rval"] Cons.prems
  have "(k, v) \<in> set (assign (Key x) (f x) rval) \<or> (\<exists>obj \<in> set xs. k = Key obj \<and> v = f obj)"
    by simp
  then show ?case
    using set_update_subset [of k v "Key x" "f x" rval] by (auto simp: assign_def split: if_splits)
qed

lemma S3Object_collapse [simp]:
  "\<lparr>Key = Key obj, ETag = ETag obj, Size = Size obj, LastModified = LastModified obj\<rparr> = obj"
  by (cases obj) simp

lemma listed_entry:
  "(k, v) \<in> set (listed pfx objs) \<Longrightarrow> v \<in> set (under_prefix pfx objs) \<and> Key v = k"
  unfolding listed_def by (drule set_fold_update) auto

lemma classified_subset:
  "obj \<in> set (classified c cls srcObjs dstObjs) \<Longrightarrow> obj \<in> snd ` set srcObjs"
  by (auto simp: classified_def)

lemma store_compare_source_keys:
  assumes "compareSrcAndDst store_client c w = Some (Inr cmp, w')"
    and "obj \<in> set (needCopy cmp @ diff cmp)"
  shows "Key obj \<in> set (source_keys c w)"
proof -
  from store_compareSrcAndDst [of c w] assms(1)
  obtain sb db where sb: "srcBucket c = Some sb" and
    cmp: "cmp = \<lparr>needCopy = classified c NeedsCopy (listed (srcPrefix c) (buckets w sb))
                                 (listed (dstPrefix c) (buckets w db)),
                   existed = classified c Unchanged (listed (srcPrefix c) (buckets w sb))
                                 (listed (dstPrefix c) (buckets w db)),
                   diff = classified c Conflicting (listed (srcPrefix c) (buckets w sb))
                                 (listed (dstPrefix c) (buckets w db))\<rparr>"
    by auto
  from assms(2) have "obj \<in> snd ` set (listed (srcPrefix c) (buckets w sb))"
    unfolding cmp by (auto dest: classified_subset)
  then obtain k where "(k, obj) \<in> set (listed (srcPrefix c) (buckets w sb))"
    by auto
  from listed_entry [OF this] show ?thesis
    by (auto simp: source_keys_def sb)
qed

text \<open>
  A run on the store always returns, and writes nothing but objects of the destination
  bucket under translated keys of its source listing.
\<close>

lemma store_startSyncing:
  "\<exists>res w'. startSyncing store_client c w = Some (res, w') \<and>
     wrote_only (dstBucket c)
       ((\<lambda>k. replace k (ToString (srcPrefix c)) (ToString (dstPrefix c))) ` set (source_keys c w))
       w w'"
proof -
  let ?tr = "\<lambda>k. replace k (ToString (srcPrefix c)) (ToString (dstPrefix c))"
  let ?K = "?tr ` set (source_keys c w)"
  from store_compareSrcAndDst [of c w] obtain r w1 where
    first: "compareSrcAndDst store_client c w = Some (r, w1)" and
    w1: "buckets w1 = buckets w" "same_setup w w1"
    by blast
  have step1: "wrote_only (dstBucket c) ?K w w1"
    using w1 by (rule wrote_only_same_buckets)
  show ?thesis
  proof (cases r)
    case (Inl e)
    with first have "startSyncing store_client c w = Some (Inl e, w1)"
      by (simp add: startSyncing_unfold)
    with step1 show ?thesis by blast
  next
    case (Inr cmp)
    show ?thesis
    proof (cases "needCopy cmp = [] \<and> diff cmp = []")
      case True
      with first Inr have "startSyncing store_client c w = Some (Inr True, w1)"
        by (simp add: startSyncing_unfold)
      with step1 show ?thesis by blast
    next
      case False
      let ?w3 = "copied store_client c cmp w1"
      have keys: "(\<lambda>obj. ?tr (Key obj)) ` set (needCopy cmp @ diff cmp) \<subseteq> ?K"
        using store_compare_source_keys [OF first [unfolded Inr]] by blast
      have step2: "wrote_only (dstBucket c) ?K w1 ?w3"
        using store_copied_writes [of c cmp w1] keys by (rule wrote_only_mono)
      from store_compareSrcAndDst [of c ?w3] obtain r' w4 where
        second: "compareSrcAndDst store_client c ?w3 = Some (r', w4)" and
        w4: "buckets w4 = buckets ?w3" "same_setup ?w3 w4"
        by blast
      have step3: "wrote_only (dstBucket c) ?K ?w3 w4"
        using w4 by (rule wrote_only_same_buckets)
      have all: "wrote_only (dstBucket c) ?K w w4"
        using wrote_only_trans [OF wrote_only_trans [OF step1 step2] step3] by simp
      have "\<exists>res. startSyncing store_client c w = Some (res, w4)"
        using first Inr False second
        by (cases r') (auto simp: startSyncing_unfold)
      with all show ?thesis by blast
    qed
  qed
qed

subsection \<open>The result of a run\<close>



subsection \<open>Objects of the destination that no source key translates to\<close>

lemma copy_phase_calls:
  "\<exists>more. snd (snd (runBoundedParallelSingleParam (cp (recording s3c) c) objs wc)) = snd wc @ more \<and>
     (\<forall>a \<in> set more. \<exists>obj \<in> set objs.
        Some (fst a) = attempt_call c (Key obj)
           (replace (Key obj) (ToString (srcPrefix c)) (ToString (dstPrefix c))) (Size obj) False)"
proof (induction objs arbitrary: wc)
  case Nil
  then show ?case by simp
next
  case (Cons obj objs)
  obtain r w1 where step: "cp (recording s3c) c obj wc = (r, w1)"
    by (cases "cp (recording s3c) c obj wc")
  from copyObject_returns [of "recording s3c" c "Key obj" "Size obj" False wc] step
  have r: "r = Inr ()" by (simp add: cp_def)
  have run: "runBoundedParallelSingleParam (cp (recording s3c) c) (obj # objs) wc =
             runBoundedParallelSingleParam (cp (recording s3c) c) objs w1"
    using step r by simp
  from cp_calls [OF step] obtain oks where
    first: "snd w1 = snd wc @ recorded (attempt_call c (Key obj)
            (replace (Key obj) (ToString (srcPrefix c)) (ToString (dstPrefix c))) (Size obj) False) oks"
    by blast
  have mine: "\<forall>a \<in> set (recorded (attempt_call c (Key obj)
            (replace (Key obj) (ToString (srcPrefix c)) (ToString (dstPrefix c))) (Size obj) False) oks).
         Some (fst a) = attempt_call c (Key obj)
            (replace (Key obj) (ToString (srcPrefix c)) (ToString (dstPrefix c))) (Size obj) False"
    by (auto simp: recorded_def split: option.splits)
  from Cons.IH [of w1] obtain more where more:
    "snd (snd (runBoundedParallelSingleParam (cp (recording s3c) c) objs w1)) = snd w1 @ more"
    "\<forall>a \<in> set more. \<exists>obj \<in> set objs.
        Some (fst a) = attempt_call c (Key obj)
           (replace (Key obj) (ToString (srcPrefix c)) (ToString (dstPrefix c))) (Size obj) False"
    by blast
  show ?case
    unfolding run
    using first mine more
    by (intro exI [of _ "recorded (attempt_call c (Key obj)
            (replace (Key obj) (ToString (srcPrefix c)) (ToString (dstPrefix c))) (Size obj) False) oks
            @ more"]) auto
qed

lemma attempt_call_upload:
  "Some a = attempt_call c key dstKey sz False \<Longrightarrow>
   \<exists>h req. a = UploadCall h req \<and> put_Key req = dstKey \<and> put_Bucket req = dstBucket c"
  by (auto simp: attempt_call_def split: option.splits)

text \<open>The calls of a run: listings, and uploads under translated keys of objects to copy.\<close>

lemma startSyncing_calls:
  assumes "startSyncing (recording s3c) c (w, []) = Some (res, wc')"
    and "a \<in> set (snd wc')"
  shows "is_listing (fst a) \<or>
     (\<exists>cmp w1 obj h req.
        compareSrcAndDst (recording s3c) c (w, []) = Some (Inr cmp, w1) \<and>
        obj \<in> set (needCopy cmp @ diff cmp) \<and> fst a = UploadCall h req \<and>
        put_Key req = replace (Key obj) (ToString (srcPrefix c)) (ToString (dstPrefix c)) \<and>
        put_Bucket req = dstBucket c)"
proof -
  from assms(1) obtain r w1 where first: "compareSrcAndDst (recording s3c) c (w, []) = Some (r, w1)"
    by (cases "compareSrcAndDst (recording s3c) c (w, [])") (auto simp: startSyncing_unfold)
  from compareSrcAndDst_recording [OF first] have l1: "\<forall>a \<in> set (snd w1). is_listing (fst a)"
    by auto
  show ?thesis
  proof (cases r)
    case (Inl e)
    with assms(1) first have "wc' = w1"
      by (simp add: startSyncing_unfold)
    with l1 assms(2) show ?thesis by blast
  next
    case (Inr cmp)
    show ?thesis
    proof (cases "needCopy cmp = [] \<and> diff cmp = []")
      case True
      with assms(1) first Inr have "wc' = w1"
        by (simp add: startSyncing_unfold)
      with l1 assms(2) show ?thesis by blast
    next
      case False
      let ?w2 = "snd (runBoundedParallelSingleParam (cp (recording s3c) c) (needCopy cmp) w1)"
      let ?w3 = "copied (recording s3c) c cmp w1"
      from assms(1) first Inr False obtain r' where
        second: "compareSrcAndDst (recording s3c) c ?w3 = Some (r', wc')"
        by (cases "compareSrcAndDst (recording s3c) c ?w3")
           (auto simp: startSyncing_unfold split: sum.splits)
      from compareSrcAndDst_recording [OF second] obtain ls where
        ls: "snd wc' = snd ?w3 @ ls" "\<forall>a \<in> set ls. is_listing (fst a)"
        by blast
      from copy_phase_calls [of s3c c "needCopy cmp" w1] obtain m1 where
        m1: "snd ?w2 = snd w1 @ m1"
        "\<forall>a \<in> set m1. \<exists>obj \<in> set (needCopy cmp).
          Some (fst a) = attempt_call c (Key obj)
           (replace (Key obj) (ToString (srcPrefix c)) (ToString (dstPrefix c))) (Size obj) False"
        by blast
      from copy_phase_calls [of s3c c "diff cmp" ?w2] obtain m2 where
        m2: "snd ?w3 = snd ?w2 @ m2"
        "\<forall>a \<in> set m2. \<exists>obj \<in> set (diff cmp).
          Some (fst a) = attempt_call c (Key obj)
           (replace (Key obj) (ToString (srcPrefix c)) (ToString (dstPrefix c))) (Size obj) False"
        unfolding copied_def by blast
      from assms(2) ls m1 m2 have "a \<in> set (snd w1) \<or> a \<in> set ls \<or> a \<in> set m1 \<or> a \<in> set m2"
        by auto
      with l1 ls(2) m1(2) m2(2)
      have "is_listing (fst a) \<or> (\<exists>obj \<in> set (needCopy cmp) \<union> set (diff cmp).
          Some (fst a) = attempt_call c (Key obj)
           (replace (Key obj) (ToString (srcPrefix c)) (ToString (dstPrefix c))) (Size obj) False)"
        by blast
      then show ?thesis
      proof
        assume "is_listing (fst a)"
        then show ?thesis by simp
      next
        assume "\<exists>obj \<in> set (needCopy cmp) \<union> set (diff cmp).
          Some (fst a) = attempt_call c (Key obj)
           (replace (Key obj) (ToString (srcPrefix c)) (ToString (dstPrefix c))) (Size obj) False"
        then obtain obj where obj: "obj \<in> set (needCopy cmp @ diff cmp)"
          "Some (fst a) = attempt_call c (Key obj)
           (replace (Key obj) (ToString (srcPrefix c)) (ToString (dstPrefix c))) (Size obj) False"
          by auto
        from attempt_call_upload [OF obj(2)] obtain h req where
          "fst a = UploadCall h req"
          "put_Key req = replace (Key obj) (ToString (srcPrefix c)) (ToString (dstPrefix c))"
          "put_Bucket req = dstBucket c"
          by blast
        with first Inr obj(1) show ?thesis by blast
      qed
    qed
  qed
qed

lemma store_compare_listed_keys:
  assumes "compareSrcAndDst store_client c w = Some (Inr cmp, w')"
    and "obj \<in> set (needCopy cmp @ existed cmp @ diff cmp)"
  shows "Key obj \<in> set (source_keys c w)"
proof -
  from store_compareSrcAndDst [of c w] assms(1)
  obtain sb db where sb: "srcBucket c = Some sb" and
    cmp: "cmp = \<lparr>needCopy = classified c NeedsCopy (listed (srcPrefix c) (buckets w sb))
                                 (listed (dstPrefix c) (buckets w db)),
                   existed = classified c Unchanged (listed (srcPrefix c) (buckets w sb))
                                 (listed (dstPrefix c) (buckets w db)),
                   diff = classified c Conflicting (listed (srcPrefix c) (buckets w sb))
                                 (listed (dstPrefix c) (buckets w db))\<rparr>"
    by auto
  from assms(2) have "obj \<in> snd ` set (listed (srcPrefix c) (buckets w sb))"
    unfolding cmp by (auto dest: classified_subset)
  then obtain k where "(k, obj) \<in> set (listed (srcPrefix c) (buckets w sb))"
    by auto
  from listed_entry [OF this] show ?thesis
    by (auto simp: source_keys_def sb)
qed

lemma sync_runs_length: "length (sync_runs c n w) = Suc n"
proof (induction n arbitrary: w)
  case 0
  then show ?case by simp
next
  case (Suc n)
  from store_startSyncing [of c w] obtain res w' where
    "startSyncing store_client c w = Some (res, w')"
    by blast
  with Suc.IH [of w'] show ?case by simp
qed

lemma sync_runs_untouched:
  assumes "\<And>wi. wi \<in> set (butlast (sync_runs c n w)) \<Longrightarrow>
             k \<notin> (\<lambda>k0. replace k0 (ToString (srcPrefix c)) (ToString (dstPrefix c)))
                     ` set (source_keys c wi)"
    and "wj \<in> set (sync_runs c n w)"
  shows "map_of (buckets wj b) k = map_of (buckets w b) k"
  using assms
proof (induction n arbitrary: w)
  case 0
  then show ?case by simp
next
  case (Suc n)
  from store_startSyncing [of c w] obtain res w' where
    run: "startSyncing store_client c w = Some (res, w')" and
    wrote: "wrote_only (dstBucket c)
       ((\<lambda>k. replace k (ToString (srcPrefix c)) (ToString (dstPrefix c))) ` set (source_keys c w))
       w w'"
    by blast
  have runs: "sync_runs c (Suc n) w = w # sync_runs c n w'"
    using run by simp
  have ne: "sync_runs c n w' \<noteq> []"
    using sync_runs_length [of c n w'] by auto
  have here: "k \<notin> (\<lambda>k0. replace k0 (ToString (srcPrefix c)) (ToString (dstPrefix c)))
                     ` set (source_keys c w)"
    using Suc.prems(1) [unfolded runs, of w] ne by simp
  have step: "map_of (buckets w' b) k = map_of (buckets w b) k"
    using wrote here by (rule wrote_only_map_of)
  show ?case
  proof (cases "wj = w")
    case True
    then show ?thesis by simp
  next
    case False
    with Suc.prems(2) [unfolded runs] have wj: "wj \<in> set (sync_runs c n w')" by simp
    have "\<And>wi. wi \<in> set (butlast (sync_runs c n w')) \<Longrightarrow>
             k \<notin> (\<lambda>k0. replace k0 (ToString (srcPrefix c)) (ToString (dstPrefix c)))
                     ` set (source_keys c wi)"
      using Suc.prems(1) [unfolded runs] ne by simp
    from Suc.IH [OF this wj] step show ?thesis by simp
  qed
qed


lemma sync_runs_source_keys:
  assumes "srcBucket c \<noteq> dstBucket c" "wi \<in> set (sync_runs c n w)"
  shows "source_keys c wi = source_keys c w"
  using assms(2)
proof (induction n arbitrary: w)
  case 0
  then show ?case by simp
next
  case (Suc n)
  from store_startSyncing [of c w] obtain res w' where
    run: "startSyncing store_client c w = Some (res, w')" and
    wrote: "wrote_only (dstBucket c)
       ((\<lambda>k. replace k (ToString (srcPrefix c)) (ToString (dstPrefix c))) ` set (source_keys c w))
       w w'"
    by blast
  have runs: "sync_runs c (Suc n) w = w # sync_runs c n w'"
    using run by simp
  have same: "source_keys c w' = source_keys c w"
  proof (cases "srcBucket c")
    case None
    then show ?thesis by (simp add: source_keys_def)
  next
    case (Some sb)
    with assms(1) have "dstBucket c \<noteq> Some sb" by simp
    with wrote have "buckets w' sb = buckets w sb"
      unfolding wrote_only_def by blast
    with Some show ?thesis by (simp add: source_keys_def)
  qed
  show ?case
  proof (cases "wi = w")
    case True
    then show ?thesis by simp
  next
    case False
    with Suc.prems [unfolded runs] have "wi \<in> set (sync_runs c n w')" by simp
    from Suc.IH [OF this] same show ?thesis by simp
  qed
qed

text \<open>
  On the reference store a run always returns, and it leaves every object as it was but
  those of the destination bucket whose key is the key that the code translates a key of
  the source listing to. The objects that a comparison sorts into its three lists are
  objects of the source listing. Any number of runs in a row all return, and an object
  under a key that the code translates no source key to, when each of these runs starts,
  is the same after all of them. On any client, every call of a run is a listing call or
  an upload into the destination bucket under the key that the code translates an object
  to that the first comparison told to copy: the class has no call that deletes, and
  \<open>startSyncing\<close> makes no server-side copy.
\<close>

lemma untranslated_keys_untouched:
  "(\<exists>res w'. startSyncing store_client c w = Some (res, w') \<and>
      (\<forall>b' k'. (dstBucket c = Some b' \<longrightarrow>
                  k' \<notin> (\<lambda>k0. replace k0 (ToString (srcPrefix c)) (ToString (dstPrefix c)))
                          ` set (source_keys c w)) \<longrightarrow>
               map_of (buckets w' b') k' = map_of (buckets w b') k')) \<and>
   (compareSrcAndDst store_client c w = Some (Inr cmp, wl) \<longrightarrow>
      Key ` set (needCopy cmp @ existed cmp @ diff cmp) \<subseteq> set (source_keys c w)) \<and>
   length (sync_runs c n w) = Suc n \<and>
   ((\<forall>wi \<in> set (butlast (sync_runs c n w)).
        k \<notin> (\<lambda>k0. replace k0 (ToString (srcPrefix c)) (ToString (dstPrefix c)))
               ` set (source_keys c wi)) \<longrightarrow>
    (\<forall>wj \<in> set (sync_runs c n w). map_of (buckets wj b) k = map_of (buckets w b) k)) \<and>
   (startSyncing (recording s3c) c (wr, []) = Some (rr, wc') \<longrightarrow>
      (\<forall>a \<in> set (snd wc').
         is_listing (fst a) \<or>
         (\<exists>cmp w1 obj h req.
            compareSrcAndDst (recording s3c) c (wr, []) = Some (Inr cmp, w1) \<and>
            obj \<in> set (needCopy cmp @ diff cmp) \<and> fst a = UploadCall h req \<and>
            put_Key req = replace (Key obj) (ToString (srcPrefix c)) (ToString (dstPrefix c)) \<and>
            put_Bucket req = dstBucket c)))"
proof (intro conjI impI ballI)
  let ?K = "(\<lambda>k0. replace k0 (ToString (srcPrefix c)) (ToString (dstPrefix c))) ` set (source_keys c w)"
  from store_startSyncing [of c w] obtain res w' where
    run: "startSyncing store_client c w = Some (res, w')" and
    wrote: "wrote_only (dstBucket c) ?K w w'"
    by blast
  have "map_of (buckets w' b') k' = map_of (buckets w b') k'"
    if "dstBucket c = Some b' \<longrightarrow> k' \<notin> ?K" for b' k'
  proof (cases "dstBucket c = Some b'")
    case True
    with that have "k' \<notin> ?K" by simp
    with wrote show ?thesis by (rule wrote_only_map_of)
  next
    case False
    with wrote have "buckets w' b' = buckets w b'"
      unfolding wrote_only_def by blast
    then show ?thesis by simp
  qed
  with run show "\<exists>res w'. startSyncing store_client c w = Some (res, w') \<and>
      (\<forall>b' k'. (dstBucket c = Some b' \<longrightarrow> k' \<notin> ?K) \<longrightarrow>
               map_of (buckets w' b') k' = map_of (buckets w b') k')"
    by blast
next
  assume "compareSrcAndDst store_client c w = Some (Inr cmp, wl)"
  then show "Key ` set (needCopy cmp @ existed cmp @ diff cmp) \<subseteq> set (source_keys c w)"
    using store_compare_listed_keys by blast
next
  show "length (sync_runs c n w) = Suc n"
    by (rule sync_runs_length)
next
  fix wj
  assume "\<forall>wi \<in> set (butlast (sync_runs c n w)).
        k \<notin> (\<lambda>k0. replace k0 (ToString (srcPrefix c)) (ToString (dstPrefix c)))
               ` set (source_keys c wi)"
    and "wj \<in> set (sync_runs c n w)"
  then show "map_of (buckets wj b) k = map_of (buckets w b) k"
    using sync_runs_untouched [of c n w k wj b] by blast
next
  fix a
  assume "startSyncing (recording s3c) c (wr, []) = Some (rr, wc')" "a \<in> set (snd wc')"
  then show "is_listing (fst a) \<or>
         (\<exists>cmp w1 obj h req.
            compareSrcAndDst (recording s3c) c (wr, []) = Some (Inr cmp, w1) \<and>
            obj \<in> set (needCopy cmp @ diff cmp) \<and> fst a = UploadCall h req \<and>
            put_Key req = replace (Key obj) (ToString (srcPrefix c)) (ToString (dstPrefix c)) \<and>
            put_Bucket req = dstBucket c)"
    by (rule startSyncing_calls)
qed

text \<open>
  For a destination prefix without a dollar sign the code translates the keys of the
  source listing as the spec's \<open>keyTranslate\<close> does: an object under a key that is the
  spec's translation of no source key, when each of the runs starts, is the same after all
  of them.
\<close>

lemma source_keys_prefixed:
  "srcPrefix c = Some sp \<Longrightarrow> k \<in> set (source_keys c w) \<Longrightarrow> prefix sp k"
  by (auto simp: source_keys_def under_prefix_def split: option.splits)

lemma translated_source_keys:
  assumes "srcPrefix c = Some sp" "dstPrefix c = Some dp" "CHR ''$'' \<notin> set dp"
  shows "(\<lambda>k0. replace k0 (ToString (srcPrefix c)) (ToString (dstPrefix c))) ` set (source_keys c w) =
         keyTranslate sp dp ` set (source_keys c w)"
proof (rule image_cong [OF refl])
  fix k
  assume "k \<in> set (source_keys c w)"
  with assms(1) have "prefix sp k"
    by (rule source_keys_prefixed)
  with assms show "replace k (ToString (srcPrefix c)) (ToString (dstPrefix c)) = keyTranslate sp dp k"
    by (simp add: ToString_def replace_keyTranslate)
qed

lemma destination_only_untouched_plain:
  assumes "srcPrefix c = Some sp" "dstPrefix c = Some dp" "CHR ''$'' \<notin> set dp"
    and "\<And>wi. wi \<in> set (butlast (sync_runs c n w)) \<Longrightarrow>
           k \<notin> keyTranslate sp dp ` set (source_keys c wi)"
    and "wj \<in> set (sync_runs c n w)"
  shows "map_of (buckets wj b) k = map_of (buckets w b) k"
proof (rule sync_runs_untouched [OF _ assms(5)])
  fix wi
  assume "wi \<in> set (butlast (sync_runs c n w))"
  then have "k \<notin> keyTranslate sp dp ` set (source_keys c wi)"
    by (rule assms(4))
  with translated_source_keys [OF assms(1-3), of wi]
  show "k \<notin> (\<lambda>k0. replace k0 (ToString (srcPrefix c)) (ToString (dstPrefix c)))
                    ` set (source_keys c wi)"
    by simp
qed

text \<open>
  C6. The claim fails where the destination prefix holds a dollar pattern, by the defect
  of the translated key. With the prefixes \<open>a/\<close> and \<open>x$$\<close>, the one source key \<open>a/$y\<close> has
  the translated key \<open>x$$$y\<close> by the spec's \<open>keyTranslate\<close>; the object \<open>x$$y\<close> of the
  destination, under the destination prefix, is the translation of no source key. The
  code translates \<open>a/$y\<close> to \<open>x$$y\<close>: the comparison sorts the source object against this
  destination object, into \<open>diff\<close>, and the run, which returns true, has overwritten it
  with the content of the source object.
\<close>

theorem destination_only_object_overwritten:
  "source_keys (example_config\<lparr>dstPrefix := Some ''x$$''\<rparr>) dollar_store = [''a/$y''] \<and>
   keyTranslate ''a/'' ''x$$'' ''a/$y'' = ''x$$$y'' \<and>
   map_of (buckets dollar_store ''backup'') ''x$$y'' =
     Some \<lparr>Key = ''x$$y'', ETag = ''e0'', Size = 7, LastModified = 1\<rparr> \<and>
   map_option fst (compareSrcAndDst store_client (example_config\<lparr>dstPrefix := Some ''x$$''\<rparr>)
                     dollar_store) =
     Some (Inr \<lparr>needCopy = [], existed = [],
                diff = [\<lparr>Key = ''a/$y'', ETag = ''e1'', Size = 10, LastModified = 3\<rparr>]\<rparr>) \<and>
   (\<exists>w'. startSyncing store_client (example_config\<lparr>dstPrefix := Some ''x$$''\<rparr>) dollar_store =
            Some (Inr True, w') \<and>
      map_of (buckets w' ''backup'') ''x$$y'' =
        Some \<lparr>Key = ''x$$y'', ETag = ''e1'', Size = 10, LastModified = 102\<rparr>)"
  by (simp add: source_keys_def keyTranslate_def sync_defs store_defs example_config_def
        dollar_store_def dollar_objects_def never_def)

subsection \<open>Two runs in a row\<close>

text \<open>The listing of a bucket that holds one object per key.\<close>

lemma update_new: "k \<notin> fst ` set al \<Longrightarrow> AList.update k v al = al @ [(k, v)]"
  by (induction al) auto

lemma fold_update_new:
  "distinct (map Key xs) \<Longrightarrow> Key ` set xs \<inter> fst ` set rval = {} \<Longrightarrow>
   fold (\<lambda>obj. assign (Key obj) obj) xs rval =
     rval @ map (\<lambda>obj. (Key obj, obj)) (filter (\<lambda>obj. Key obj \<noteq> ''__proto__'') xs)"
proof (induction xs arbitrary: rval)
  case Nil
  then show ?case by simp
next
  case (Cons x xs)
  show ?case
  proof (cases "Key x = ''__proto__''")
    case True
    have "Key ` set xs \<inter> fst ` set rval = {}"
      using Cons.prems by auto
    with Cons.IH [of rval] Cons.prems(1) True show ?thesis
      by (simp add: assign_def)
  next
    case False
    have new: "Key x \<notin> fst ` set rval"
      using Cons.prems(2) by auto
    have "Key ` set xs \<inter> fst ` set (rval @ [(Key x, x)]) = {}"
      using Cons.prems by auto
    with Cons.IH [of "rval @ [(Key x, x)]"] Cons.prems(1) new False show ?thesis
      by (simp add: assign_def update_new)
  qed
qed

lemma listed_eq:
  assumes "distinct (map fst objs)"
  shows "listed pfx objs =
     map (\<lambda>(k, obj). (k, obj\<lparr>Key := k\<rparr>))
       (filter (\<lambda>(k, obj). (case pfx of None \<Rightarrow> True | Some p \<Rightarrow> prefix p k) \<and> k \<noteq> ''__proto__'')
          objs)"
proof -
  let ?in = "\<lambda>(k, obj). case pfx of None \<Rightarrow> True | Some p \<Rightarrow> prefix p k"
  have keys: "map Key (under_prefix pfx objs) = map fst (filter ?in objs)"
    by (simp add: under_prefix_def split_beta)
  have "distinct (map fst (filter ?in objs))"
    using assms by (rule distinct_map_filter)
  with keys have "distinct (map Key (under_prefix pfx objs))"
    by simp
  then have "listed pfx objs =
      map (\<lambda>obj. (Key obj, obj)) (filter (\<lambda>obj. Key obj \<noteq> ''__proto__'') (under_prefix pfx objs))"
    unfolding listed_def using fold_update_new [of "under_prefix pfx objs" "[]"] by simp
  also have "\<dots> = map (\<lambda>(k, obj). (k, obj\<lparr>Key := k\<rparr>))
       (filter (\<lambda>(k, obj). (case pfx of None \<Rightarrow> True | Some p \<Rightarrow> prefix p k) \<and> k \<noteq> ''__proto__'')
          objs)"
    by (induction objs) (auto simp: under_prefix_def)
  finally show ?thesis .
qed

lemma map_of_listed:
  assumes "distinct (map fst objs)"
  shows "map_of (listed (Some p) objs) k =
     (if prefix p k \<and> k \<noteq> ''__proto__'' then map_option (\<lambda>obj. obj\<lparr>Key := k\<rparr>) (map_of objs k)
      else None)"
proof -
  have "map_of (map (\<lambda>(k, obj). (k, obj\<lparr>Key := k\<rparr>))
            (filter (\<lambda>(k, obj). prefix p k \<and> k \<noteq> ''__proto__'') al)) k =
        (if prefix p k \<and> k \<noteq> ''__proto__'' then map_option (\<lambda>obj. obj\<lparr>Key := k\<rparr>) (map_of al k)
         else None)" for al :: "(string \<times> S3Object) list"
    by (induction al) auto
  then show ?thesis
    by (simp add: listed_eq [OF assms])
qed

lemma classify_Key [simp]:
  "classify (s\<lparr>Key := a\<rparr>) (map_option (\<lambda>obj. obj\<lparr>Key := b\<rparr>) d) = classify s d"
  by (cases d) (simp_all add: classify_def)

lemma replace_prefixed:
  "prefix p k \<Longrightarrow> CHR ''$'' \<notin> set q \<Longrightarrow> replace k p q = q @ drop (length p) k"
  by (auto simp: prefix_def replace_prefix)

text \<open>
  The lists of a comparison, over buckets that hold one object per key and with no source
  key translated to \<open>__proto__\<close>: the objects that the listing of the source bucket under
  the source prefix holds, sorted by the object that the destination bucket holds under
  the translated key.
\<close>

lemma classified_listed:
  assumes "distinct (map fst S)" "distinct (map fst D)"
    and "srcPrefix c = Some sp" "dstPrefix c = Some dp" "CHR ''$'' \<notin> set dp"
    and tr: "\<forall>(k, obj) \<in> set S. prefix sp k \<and> k \<noteq> ''__proto__'' \<longrightarrow> replace k sp dp \<noteq> ''__proto__''"
  shows "classified c cls (listed (Some sp) S) (listed (Some dp) D) =
     map (\<lambda>(k, obj). obj\<lparr>Key := k\<rparr>)
       (filter (\<lambda>(k, obj). prefix sp k \<and> k \<noteq> ''__proto__'' \<and>
                  classify obj (map_of D (replace k sp dp)) = cls) S)"
proof -
  have look: "classify (obj\<lparr>Key := k\<rparr>) (map_of (listed (Some dp) D) (replace k sp dp)) =
              classify obj (map_of D (replace k sp dp))"
    if "prefix sp k" "replace k sp dp \<noteq> ''__proto__''" for k obj
  proof -
    have "prefix dp (replace k sp dp)"
      using that(1) assms(5) by (simp add: replace_prefixed)
    with map_of_listed [OF assms(2), of dp "replace k sp dp"] that(2) show ?thesis by simp
  qed
  have "(\<forall>(k, obj) \<in> set al. prefix sp k \<and> k \<noteq> ''__proto__'' \<longrightarrow> replace k sp dp \<noteq> ''__proto__'') \<Longrightarrow>
        map snd (filter (\<lambda>(k, s). classify s (map_of (listed (Some dp) D) (replace k sp dp)) = cls)
           (map (\<lambda>(k, obj). (k, obj\<lparr>Key := k\<rparr>))
              (filter (\<lambda>(k, obj). prefix sp k \<and> k \<noteq> ''__proto__'') al))) =
        map (\<lambda>(k, obj). obj\<lparr>Key := k\<rparr>)
          (filter (\<lambda>(k, obj). prefix sp k \<and> k \<noteq> ''__proto__'' \<and>
                     classify obj (map_of D (replace k sp dp)) = cls) al)"
    for al :: "(string \<times> S3Object) list"
  proof (induction al)
    case Nil
    then show ?case by simp
  next
    case (Cons e al)
    obtain k obj where e: "e = (k, obj)" by (cases e)
    have rest: "\<forall>(k, obj) \<in> set al. prefix sp k \<and> k \<noteq> ''__proto__'' \<longrightarrow> replace k sp dp \<noteq> ''__proto__''"
      using Cons.prems by simp
    show ?case
    proof (cases "prefix sp k \<and> k \<noteq> ''__proto__''")
      case True
      with Cons.prems e have "replace k sp dp \<noteq> ''__proto__''" by simp
      with True Cons.IH [OF rest] show ?thesis
        unfolding e by (simp add: look)
    next
      case False
      with Cons.IH [OF rest] show ?thesis
        unfolding e by auto
    qed
  qed
  from this [OF tr] show ?thesis
    by (simp add: classified_def listed_eq [OF assms(1)] assms(3,4) ToString_def)
qed

lemma store_compare_lists:
  assumes one: "\<forall>b. distinct (map fst (buckets w b))"
    and ok: "\<forall>n. \<not> rejects w n"
    and cfg: "srcS3 c = Some hsrc" "dstS3 c = Some hdst" "srcBucket c = Some sb" "dstBucket c = Some db"
      "srcPrefix c = Some sp" "dstPrefix c = Some dp"
    and plain: "CHR ''$'' \<notin> set dp"
    and names: "ordinary_keys sp dp (buckets w sb) (buckets w db)"
  shows "\<exists>cmp w'. compareSrcAndDst store_client c w = Some (Inr cmp, w') \<and>
      buckets w' = buckets w \<and> same_setup w w' \<and>
      needCopy cmp = map (\<lambda>(k, obj). obj\<lparr>Key := k\<rparr>)
         (filter (\<lambda>(k, obj). prefix sp k \<and> k \<noteq> ''__proto__'' \<and>
             classify obj (map_of (buckets w db) (replace k sp dp)) = NeedsCopy) (buckets w sb)) \<and>
      diff cmp = map (\<lambda>(k, obj). obj\<lparr>Key := k\<rparr>)
         (filter (\<lambda>(k, obj). prefix sp k \<and> k \<noteq> ''__proto__'' \<and>
             classify obj (map_of (buckets w db) (replace k sp dp)) = Conflicting) (buckets w sb))"
proof -
  from store_compareSrcAndDst [of c w] obtain r w' where
    run: "compareSrcAndDst store_client c w = Some (r, w')" and
    w': "buckets w' = buckets w" "same_setup w w'" and
    lists: "\<forall>cmp. r = Inr cmp \<longrightarrow>
         (\<exists>sb db. srcBucket c = Some sb \<and> dstBucket c = Some db \<and>
            cmp = \<lparr>needCopy = classified c NeedsCopy (listed (srcPrefix c) (buckets w sb))
                                 (listed (dstPrefix c) (buckets w db)),
                   existed = classified c Unchanged (listed (srcPrefix c) (buckets w sb))
                                 (listed (dstPrefix c) (buckets w db)),
                   diff = classified c Conflicting (listed (srcPrefix c) (buckets w sb))
                                 (listed (dstPrefix c) (buckets w db))\<rparr>)" and
    good: "(\<forall>n. \<not> rejects w n) \<and> srcS3 c \<noteq> None \<and> srcBucket c \<noteq> None \<and>
         dstS3 c \<noteq> None \<and>
         (\<exists>db. dstBucket c = Some db \<and>
            map_of (listed (dstPrefix c) (buckets w db)) ''hasOwnProperty'' = None) \<longrightarrow> \<not> isl r"
    by blast
  have ds: "distinct (map fst (buckets w sb))" and dd: "distinct (map fst (buckets w db))"
    using one by simp_all
  have "map_of (listed (Some dp) (buckets w db)) ''hasOwnProperty'' = None"
    using names by (simp add: map_of_listed [OF dd] ordinary_keys_def)
  with good ok cfg have "\<not> isl r" by simp
  then obtain cmp where r: "r = Inr cmp" by (cases r) simp_all
  with lists cfg have cmp:
    "cmp = \<lparr>needCopy = classified c NeedsCopy (listed (Some sp) (buckets w sb))
                                 (listed (Some dp) (buckets w db)),
            existed = classified c Unchanged (listed (Some sp) (buckets w sb))
                                 (listed (Some dp) (buckets w db)),
            diff = classified c Conflicting (listed (Some sp) (buckets w sb))
                                 (listed (Some dp) (buckets w db))\<rparr>"
    by auto
  have tr: "\<forall>(k, obj) \<in> set (buckets w sb).
      prefix sp k \<and> k \<noteq> ''__proto__'' \<longrightarrow> replace k sp dp \<noteq> ''__proto__''"
    using names unfolding ordinary_keys_def by blast
  note cl = classified_listed [OF ds dd cfg(5,6) plain tr]
  from run r w' show ?thesis
    unfolding cmp by (simp add: cl)
qed

lemma in_sync_lists_empty:
  assumes "in_sync sp dp S D"
  shows "filter (\<lambda>(k, obj). prefix sp k \<and> k \<noteq> ''__proto__'' \<and>
             classify obj (map_of D (replace k sp dp)) = NeedsCopy) S = []"
    and "filter (\<lambda>(k, obj). prefix sp k \<and> k \<noteq> ''__proto__'' \<and>
             classify obj (map_of D (replace k sp dp)) = Conflicting) S = []"
  using assms by (auto simp: in_sync_def filter_empty_conv)

text \<open>One copy on the store, when the call is not rejected.\<close>

lemma store_cp_copies:
  assumes cfg: "srcS3 c = Some hsrc" "dstS3 c = Some hdst" "srcBucket c = Some sb" "dstBucket c = Some db"
      "srcPrefix c = Some sp" "dstPrefix c = Some dp" "maxRetries c = Some m" "0 < m"
    and ok: "\<not> rejects w (served w)"
    and src: "map_of (buckets w sb) k = Some obj"
  shows "cp store_client c (obj\<lparr>Key := k\<rparr>) w =
           (Inr (), tick (store_put db (replace k sp dp) obj w))"
proof -
  let ?dstKey = "replace k sp dp"
  have att: "copy_attempt store_client c k ?dstKey (Size obj) False w =
               (Inr (), tick (store_put db ?dstKey obj w))"
    using cfg ok src
    by (simp add: copy_attempt_def store_client_def store_upload_def)
  have "copyObject_loop store_client c k ?dstKey (Size obj) False False 0 w =
          copyObject_loop store_client c k ?dstKey (Size obj) False True 0
            (tick (store_put db ?dstKey obj w))"
    by (subst copyObject_loop_pass) (simp add: att retries_left_def cfg)
  also have "\<dots> = ((True, 0), tick (store_put db ?dstKey obj w))"
    by (subst copyObject_loop_pass) simp
  finally show ?thesis
    by (simp add: cp_def copyObject_def Let_def cfg ToString_def)
qed

lemma copy_phase_append:
  "snd (runBoundedParallelSingleParam (cp s3c c) (xs @ ys) w) =
   snd (runBoundedParallelSingleParam (cp s3c c) ys
          (snd (runBoundedParallelSingleParam (cp s3c c) xs w)))"
proof (induction xs arbitrary: w)
  case Nil
  then show ?case by simp
next
  case (Cons x xs)
  obtain r w1 where step: "cp s3c c x w = (r, w1)"
    by (cases "cp s3c c x w")
  from copyObject_returns [of s3c c "Key x" "Size x" False w] step
  have r: "r = Inr ()" by (simp add: cp_def)
  with step Cons.IH [of w1] show ?case by simp
qed

lemma copied_one_phase:
  "copied s3c c cmp w = snd (runBoundedParallelSingleParam (cp s3c c) (needCopy cmp @ diff cmp) w)"
  by (simp add: copied_def copy_phase_append)

lemma source_view_kept:
  assumes "wrote_only (Some db) K w w'"
    and "sb \<noteq> db \<or> (\<forall>k \<in> K. \<not> prefix sp k)"
  shows "filter (\<lambda>(k, obj). prefix sp k) (buckets w' sb) = filter (\<lambda>(k, obj). prefix sp k) (buckets w sb)"
proof (cases "sb = db")
  case False
  with assms(1) have "buckets w' sb = buckets w sb"
    unfolding wrote_only_def by simp
  then show ?thesis by simp
next
  case True
  with assms(2) have "\<And>k. k \<in> K \<Longrightarrow> \<not> prefix sp k" by simp
  with assms(1) show ?thesis by (rule wrote_only_filter)
qed

lemma translated_not_under_source:
  assumes "\<not> prefix sp dp" "\<not> prefix dp sp" "prefix sp k" "CHR ''$'' \<notin> set dp"
  shows "\<not> prefix sp (replace k sp dp)"
proof
  assume "prefix sp (replace k sp dp)"
  then have "prefix sp (dp @ drop (length sp) k)"
    using assms(3,4) by (simp add: replace_prefixed)
  moreover have "prefix dp (dp @ drop (length sp) k)" by simp
  ultimately have "prefix sp dp \<or> prefix dp sp"
    by (rule prefix_same_cases)
  with assms(1,2) show False by simp
qed

lemma translation_inj:
  assumes "prefix sp k" "prefix sp k'" "CHR ''$'' \<notin> set dp" "replace k sp dp = replace k' sp dp"
  shows "k = k'"
proof -
  from assms have "drop (length sp) k = drop (length sp) k'"
    by (simp add: replace_prefixed)
  moreover from assms(1,2) have "k = sp @ drop (length sp) k" "k' = sp @ drop (length sp) k'"
    by (auto simp: prefix_def)
  ultimately show ?thesis by metis
qed

text \<open>
  The copying phase on a store that rejects nothing: every object of the list, taken from
  the source listing, has afterwards an object of its size under its translated key,
  stamped no earlier than the phase began.
\<close>

lemma copy_phase_syncs:
  assumes cfg: "srcS3 c = Some hsrc" "dstS3 c = Some hdst" "srcBucket c = Some sb"
      "dstBucket c = Some db" "srcPrefix c = Some sp" "dstPrefix c = Some dp"
      "maxRetries c = Some m" "0 < m"
    and plain: "CHR ''$'' \<notin> set dp"
    and apart: "sb \<noteq> db \<or> (\<not> prefix sp dp \<and> \<not> prefix dp sp)"
    and one: "\<forall>b. distinct (map fst (buckets w b))"
    and ok: "\<forall>n. \<not> rejects w n"
    and src: "\<forall>x \<in> set L. \<exists>k obj. (k, obj) \<in> set (buckets w sb) \<and> prefix sp k \<and> x = obj\<lparr>Key := k\<rparr>"
    and t: "t \<le> now w"
    and x: "x \<in> set L"
  shows "\<exists>d. map_of (buckets (snd (runBoundedParallelSingleParam (cp store_client c) L w)) db)
                (replace (Key x) sp dp) = Some d \<and> Size d = Size x \<and> t \<le> LastModified d"
  using one ok src t x
proof (induction L arbitrary: w)
  case Nil
  then show ?case by simp
next
  case (Cons y L)
  let ?tr = "\<lambda>k. replace k sp dp"
  from Cons.prems(3) obtain k obj where
    y: "(k, obj) \<in> set (buckets w sb)" "prefix sp k" "y = obj\<lparr>Key := k\<rparr>"
    by auto
  have look: "map_of (buckets w sb) k = Some obj"
    using y(1) Cons.prems(1) by simp
  let ?w1 = "tick (store_put db (?tr k) obj w)"
  have step: "cp store_client c y w = (Inr (), ?w1)"
    unfolding y(3) using cfg Cons.prems(2) look by (intro store_cp_copies) auto
  have run: "runBoundedParallelSingleParam (cp store_client c) (y # L) w =
             runBoundedParallelSingleParam (cp store_client c) L ?w1"
    using step by simp
  let ?w' = "snd (runBoundedParallelSingleParam (cp store_client c) L ?w1)"
  have wrote1: "wrote_only (Some db) {?tr k} w ?w1"
    by (rule wrote_only_put)
  have one1: "\<forall>b. distinct (map fst (buckets ?w1 b))"
    using wrote1 Cons.prems(1) unfolding wrote_only_def by blast
  have ok1: "\<forall>n. \<not> rejects ?w1 n"
    using Cons.prems(2) by (simp add: tick_def store_put_def)
  have away: "sb \<noteq> db \<or> (\<forall>k' \<in> {?tr k}. \<not> prefix sp k')"
    using apart translated_not_under_source [of sp dp k] y(2) plain by auto
  have view: "filter (\<lambda>(k, obj). prefix sp k) (buckets ?w1 sb) =
              filter (\<lambda>(k, obj). prefix sp k) (buckets w sb)"
    using wrote1 away by (rule source_view_kept)
  have mem: "(k', o') \<in> set (buckets ?w1 sb) \<and> prefix sp k' \<longleftrightarrow>
             (k', o') \<in> set (buckets w sb) \<and> prefix sp k'" for k' o'
  proof -
    have "(k', o') \<in> set (filter (\<lambda>(k, obj). prefix sp k) (buckets ?w1 sb)) \<longleftrightarrow>
          (k', o') \<in> set (filter (\<lambda>(k, obj). prefix sp k) (buckets w sb))"
      by (simp only: view)
    then show ?thesis by simp
  qed
  have src1: "\<forall>x \<in> set L. \<exists>k obj. (k, obj) \<in> set (buckets ?w1 sb) \<and> prefix sp k \<and> x = obj\<lparr>Key := k\<rparr>"
    using Cons.prems(3) mem by (metis list.set_intros(2))
  have t1: "t \<le> now ?w1"
    using Cons.prems(4) by (simp add: tick_def store_put_def)
  show ?case
  proof (cases "x \<in> set L")
    case True
    from Cons.IH [OF one1 ok1 src1 t1 True] show ?thesis
      unfolding run .
  next
    case False
    with Cons.prems(5) have xy: "x = y" by simp
    have at1: "map_of (buckets ?w1 db) (?tr k) =
        Some \<lparr>Key = ?tr k, ETag = ETag obj, Size = Size obj, LastModified = now w\<rparr>"
      by (simp add: tick_def store_put_def update_conv')
    have later: "wrote_only (dstBucket c)
       ((\<lambda>obj. replace (Key obj) (ToString (srcPrefix c)) (ToString (dstPrefix c))) ` set L) ?w1 ?w'"
      by (rule store_copy_phase_writes)
    have "?tr k \<notin> (\<lambda>obj. replace (Key obj) (ToString (srcPrefix c)) (ToString (dstPrefix c))) ` set L"
    proof
      assume "?tr k \<in> (\<lambda>obj. replace (Key obj) (ToString (srcPrefix c)) (ToString (dstPrefix c))) ` set L"
      then obtain z where z: "z \<in> set L" "?tr k = ?tr (Key z)"
        by (auto simp: cfg ToString_def)
      from Cons.prems(3) z(1) obtain k' o' where
        z': "(k', o') \<in> set (buckets w sb)" "prefix sp k'" "z = o'\<lparr>Key := k'\<rparr>"
        by auto
      from z(2) z'(3) have "?tr k = ?tr k'" by simp
      with y(2) z'(2) plain have "k = k'" by (intro translation_inj [of sp k k' dp]) auto
      with z'(1) Cons.prems(1) look have "o' = obj" by simp
      with z'(3) \<open>k = k'\<close> y(3) xy have "z = x" by simp
      with z(1) False show False by simp
    qed
    with later have "map_of (buckets ?w' db) (?tr k) = map_of (buckets ?w1 db) (?tr k)"
      by (rule wrote_only_map_of)
    with at1 Cons.prems(4)
    have "\<exists>d. map_of (buckets ?w' db) (replace (Key x) sp dp) = Some d \<and>
            Size d = Size x \<and> t \<le> LastModified d"
      by (simp add: xy y(3))
    then show ?thesis
      unfolding run .
  qed
qed

lemma classify_fresh:
  "Size d = Size obj \<Longrightarrow> LastModified obj \<le> LastModified d \<Longrightarrow> classify obj (Some d) = Unchanged"
  by (simp add: classify_def)

text \<open>A run from a state in sync: it copies nothing.\<close>

lemma run_in_sync:
  assumes one: "\<forall>b. distinct (map fst (buckets w b))"
    and ok: "\<forall>n. \<not> rejects w n"
    and cfg: "srcS3 c = Some hsrc" "dstS3 c = Some hdst" "srcBucket c = Some sb"
      "dstBucket c = Some db" "srcPrefix c = Some sp" "dstPrefix c = Some dp"
    and plain: "CHR ''$'' \<notin> set dp"
    and names: "ordinary_keys sp dp (buckets w sb) (buckets w db)"
    and sync: "in_sync sp dp (buckets w sb) (buckets w db)"
  shows "\<exists>cmp w'. compareSrcAndDst store_client c w = Some (Inr cmp, w') \<and>
           needCopy cmp = [] \<and> diff cmp = [] \<and>
           startSyncing store_client c w = Some (Inr True, w') \<and>
           buckets w' = buckets w \<and> same_setup w w'"
proof -
  from store_compare_lists [OF one ok cfg plain names] obtain cmp w' where
    run: "compareSrcAndDst store_client c w = Some (Inr cmp, w')" and
    w': "buckets w' = buckets w" "same_setup w w'" and
    lists: "needCopy cmp = map (\<lambda>(k, obj). obj\<lparr>Key := k\<rparr>)
         (filter (\<lambda>(k, obj). prefix sp k \<and> k \<noteq> ''__proto__'' \<and>
             classify obj (map_of (buckets w db) (replace k sp dp)) = NeedsCopy) (buckets w sb))"
      "diff cmp = map (\<lambda>(k, obj). obj\<lparr>Key := k\<rparr>)
         (filter (\<lambda>(k, obj). prefix sp k \<and> k \<noteq> ''__proto__'' \<and>
             classify obj (map_of (buckets w db) (replace k sp dp)) = Conflicting) (buckets w sb))"
    by blast
  from lists in_sync_lists_empty [OF sync] have empty: "needCopy cmp = []" "diff cmp = []"
    by simp_all
  with run have "startSyncing store_client c w = Some (Inr True, w')"
    by (simp add: startSyncing_unfold)
  with run empty w' show ?thesis by blast
qed

text \<open>A first run, on a store that rejects nothing: it returns true and leaves the store in sync.\<close>

lemma run_syncs:
  assumes one: "\<forall>b. distinct (map fst (buckets w b))"
    and ok: "\<forall>n. \<not> rejects w n"
    and cfg: "srcS3 c = Some hsrc" "dstS3 c = Some hdst" "srcBucket c = Some sb"
      "dstBucket c = Some db" "srcPrefix c = Some sp" "dstPrefix c = Some dp"
      "maxRetries c = Some m" "0 < m"
    and plain: "CHR ''$'' \<notin> set dp"
    and names: "ordinary_keys sp dp (buckets w sb) (buckets w db)"
    and apart: "sb \<noteq> db \<or> (\<not> prefix sp dp \<and> \<not> prefix dp sp)"
    and clock: "\<forall>(k, obj) \<in> set (buckets w sb). prefix sp k \<longrightarrow> LastModified obj \<le> now w"
  shows "\<exists>w'. startSyncing store_client c w = Some (Inr True, w') \<and>
           (\<forall>b. distinct (map fst (buckets w' b))) \<and> (\<forall>n. \<not> rejects w' n) \<and>
           ordinary_keys sp dp (buckets w' sb) (buckets w' db) \<and>
           in_sync sp dp (buckets w' sb) (buckets w' db)"
proof -
  let ?tr = "\<lambda>k. replace k sp dp"
  let ?S = "buckets w sb"
  let ?st = "\<lambda>k obj. classify obj (map_of (buckets w db) (?tr k))"
  from store_compare_lists [OF one ok cfg(1-6) plain names] obtain cmp w1 where
    first: "compareSrcAndDst store_client c w = Some (Inr cmp, w1)" and
    w1: "buckets w1 = buckets w" "same_setup w w1" and
    lists: "needCopy cmp = map (\<lambda>(k, obj). obj\<lparr>Key := k\<rparr>)
         (filter (\<lambda>(k, obj). prefix sp k \<and> k \<noteq> ''__proto__'' \<and> ?st k obj = NeedsCopy) ?S)"
      "diff cmp = map (\<lambda>(k, obj). obj\<lparr>Key := k\<rparr>)
         (filter (\<lambda>(k, obj). prefix sp k \<and> k \<noteq> ''__proto__'' \<and> ?st k obj = Conflicting) ?S)"
    by blast
  let ?L = "needCopy cmp @ diff cmp"
  have inL: "x \<in> set ?L \<longleftrightarrow>
      (\<exists>k obj. (k, obj) \<in> set ?S \<and> prefix sp k \<and> k \<noteq> ''__proto__'' \<and> ?st k obj \<noteq> Unchanged \<and>
         x = obj\<lparr>Key := k\<rparr>)" for x
  proof
    assume "x \<in> set ?L"
    then show "\<exists>k obj. (k, obj) \<in> set ?S \<and> prefix sp k \<and> k \<noteq> ''__proto__'' \<and>
        ?st k obj \<noteq> Unchanged \<and> x = obj\<lparr>Key := k\<rparr>"
      unfolding lists by fastforce
  next
    assume "\<exists>k obj. (k, obj) \<in> set ?S \<and> prefix sp k \<and> k \<noteq> ''__proto__'' \<and>
        ?st k obj \<noteq> Unchanged \<and> x = obj\<lparr>Key := k\<rparr>"
    then obtain k obj where h: "(k, obj) \<in> set ?S" "prefix sp k" "k \<noteq> ''__proto__''"
      "?st k obj \<noteq> Unchanged" "x = obj\<lparr>Key := k\<rparr>"
      by blast
    from h(4) have "?st k obj = NeedsCopy \<or> ?st k obj = Conflicting"
      by (cases "?st k obj") simp_all
    with h(1,2,3,5) show "x \<in> set ?L"
      unfolding lists by (auto simp: image_iff intro!: bexI [of _ "(k, obj)"])
  qed
  have one1: "\<forall>b. distinct (map fst (buckets w1 b))"
    using one w1(1) by simp
  have ok1: "\<forall>n. \<not> rejects w1 n"
    using ok w1(2) by (simp add: same_setup_def)
  have t1: "now w \<le> now w1"
    using w1(2) by (simp add: same_setup_def)
  let ?w3 = "copied store_client c cmp w1"
  have w3: "?w3 = snd (runBoundedParallelSingleParam (cp store_client c) ?L w1)"
    by (rule copied_one_phase)
  have src1: "\<forall>x \<in> set ?L. \<exists>k obj. (k, obj) \<in> set (buckets w1 sb) \<and> prefix sp k \<and> x = obj\<lparr>Key := k\<rparr>"
    unfolding w1(1) using inL by blast
  have fresh: "\<exists>d. map_of (buckets ?w3 db) (?tr (Key x)) = Some d \<and> Size d = Size x \<and>
                   now w \<le> LastModified d" if "x \<in> set ?L" for x
    unfolding w3 using cfg plain apart one1 ok1 src1 t1 that by (rule copy_phase_syncs)
  let ?K = "(\<lambda>obj. replace (Key obj) (ToString (srcPrefix c)) (ToString (dstPrefix c))) ` set ?L"
  have wrote: "wrote_only (Some db) ?K w1 ?w3"
    using store_copied_writes [of c cmp w1] by (simp add: cfg)
  have K: "?K = (\<lambda>x. ?tr (Key x)) ` set ?L"
    by (simp add: cfg ToString_def)
  have one3: "\<forall>b. distinct (map fst (buckets ?w3 b))"
    using wrote one1 unfolding wrote_only_def by blast
  have ok3: "\<forall>n. \<not> rejects ?w3 n"
    using wrote ok1 unfolding wrote_only_def same_setup_def by simp
  have away: "sb \<noteq> db \<or> (\<forall>k \<in> ?K. \<not> prefix sp k)"
  proof (cases "sb = db")
    case False
    then show ?thesis by simp
  next
    case True
    with apart have inc: "\<not> prefix sp dp" "\<not> prefix dp sp" by simp_all
    have "\<not> prefix sp k'" if "k' \<in> ?K" for k'
    proof -
      from that K obtain x where x: "x \<in> set ?L" "k' = ?tr (Key x)" by auto
      from x(1) inL obtain k obj where "prefix sp k" "x = obj\<lparr>Key := k\<rparr>" by blast
      with x(2) translated_not_under_source [OF inc _ plain, of k] show ?thesis by simp
    qed
    then show ?thesis by blast
  qed
  have view: "filter (\<lambda>(k, obj). prefix sp k) (buckets ?w3 sb) =
              filter (\<lambda>(k, obj). prefix sp k) (buckets w1 sb)"
    using wrote away by (rule source_view_kept)
  have mem3: "(k, obj) \<in> set ?S" if "(k, obj) \<in> set (buckets ?w3 sb)" "prefix sp k" for k obj
  proof -
    have "(k, obj) \<in> set (filter (\<lambda>(k, obj). prefix sp k) (buckets ?w3 sb))"
      using that by simp
    then show ?thesis
      unfolding view using w1(1) by simp
  qed
  have own: "''hasOwnProperty'' \<notin> ?K"
  proof
    assume "''hasOwnProperty'' \<in> ?K"
    with K obtain x where x: "x \<in> set ?L" "''hasOwnProperty'' = ?tr (Key x)" by auto
    from x(1) inL obtain k obj where
      "(k, obj) \<in> set ?S" "prefix sp k" "k \<noteq> ''__proto__''" "x = obj\<lparr>Key := k\<rparr>"
      by blast
    with names x(2) show False
      unfolding ordinary_keys_def by fastforce
  qed
  have names3: "ordinary_keys sp dp (buckets ?w3 sb) (buckets ?w3 db)"
    unfolding ordinary_keys_def
  proof (intro conjI impI ballI, clarify)
    fix k obj
    assume "(k, obj) \<in> set (buckets ?w3 sb)" "prefix sp k" "k \<noteq> ''__proto__''"
    with mem3 have "(k, obj) \<in> set ?S" "prefix sp k" "k \<noteq> ''__proto__''"
      by simp_all
    with names show "?tr k \<noteq> ''__proto__'' \<and> ?tr k \<noteq> ''hasOwnProperty''"
      unfolding ordinary_keys_def by fastforce
  next
    assume "prefix dp ''hasOwnProperty''"
    with names have "map_of (buckets w db) ''hasOwnProperty'' = None"
      by (simp add: ordinary_keys_def)
    moreover from wrote own
    have "map_of (buckets ?w3 db) ''hasOwnProperty'' = map_of (buckets w1 db) ''hasOwnProperty''"
      by (rule wrote_only_map_of)
    ultimately show "map_of (buckets ?w3 db) ''hasOwnProperty'' = None"
      using w1(1) by simp
  qed
  have sync3: "in_sync sp dp (buckets ?w3 sb) (buckets ?w3 db)"
    unfolding in_sync_def
  proof (intro ballI, clarify)
    fix k obj
    assume in3: "(k, obj) \<in> set (buckets ?w3 sb)" and pk: "prefix sp k" and nk: "k \<noteq> ''__proto__''"
    from mem3 [OF in3 pk] have mem: "(k, obj) \<in> set ?S" .
    show "classify obj (map_of (buckets ?w3 db) (?tr k)) = Unchanged"
    proof (cases "?st k obj = Unchanged")
      case False
      with mem pk nk have "obj\<lparr>Key := k\<rparr> \<in> set ?L"
        using inL [of "obj\<lparr>Key := k\<rparr>"] by blast
      from fresh [OF this] obtain d where
        d: "map_of (buckets ?w3 db) (?tr k) = Some d" "Size d = Size obj" "now w \<le> LastModified d"
        by auto
      from clock mem pk have "LastModified obj \<le> now w" by auto
      with d show ?thesis
        by (simp add: classify_fresh)
    next
      case True
      have "?tr k \<notin> ?K"
      proof
        assume "?tr k \<in> ?K"
        with K obtain x where x: "x \<in> set ?L" "?tr k = ?tr (Key x)" by auto
        from x(1) inL obtain k' o' where
          x': "(k', o') \<in> set ?S" "prefix sp k'" "?st k' o' \<noteq> Unchanged" "x = o'\<lparr>Key := k'\<rparr>"
          by blast
        from x(2) x'(4) have "?tr k = ?tr k'" by simp
        with pk x'(2) plain have kk: "k = k'" by (intro translation_inj [of sp k k' dp]) auto
        have "distinct (map fst ?S)" using one by simp
        with mem x'(1) kk have "o' = obj"
          by (metis map_of_is_SomeI option.inject)
        with x'(3) kk True show False by simp
      qed
      with wrote have "map_of (buckets ?w3 db) (?tr k) = map_of (buckets w1 db) (?tr k)"
        by (rule wrote_only_map_of)
      with True w1(1) show ?thesis by simp
    qed
  qed
  show ?thesis
  proof (cases "needCopy cmp = [] \<and> diff cmp = []")
    case True
    with first have run: "startSyncing store_client c w = Some (Inr True, w1)"
      by (simp add: startSyncing_unfold)
    have "?w3 = w1"
      using True by (simp add: copied_def)
    with sync3 names3 have "in_sync sp dp (buckets w1 sb) (buckets w1 db)"
      "ordinary_keys sp dp (buckets w1 sb) (buckets w1 db)" by simp_all
    with run one1 ok1 show ?thesis by blast
  next
    case False
    from run_in_sync [OF one3 ok3 cfg(1-6) plain names3 sync3] obtain cmp' w4 where
      second: "compareSrcAndDst store_client c ?w3 = Some (Inr cmp', w4)" and
      empty: "needCopy cmp' = []" "diff cmp' = []" and
      w4: "buckets w4 = buckets ?w3" "same_setup ?w3 w4"
      by blast
    from first False second empty have run: "startSyncing store_client c w = Some (Inr True, w4)"
      by (auto simp: startSyncing_unfold)
    have "\<forall>b. distinct (map fst (buckets w4 b))"
      using one3 w4(1) by simp
    moreover have "\<forall>n. \<not> rejects w4 n"
      using ok3 w4(2) by (simp add: same_setup_def)
    moreover have "in_sync sp dp (buckets w4 sb) (buckets w4 db)"
      using sync3 w4(1) by simp
    moreover have "ordinary_keys sp dp (buckets w4 sb) (buckets w4 db)"
      using names3 w4(1) by simp
    ultimately show ?thesis
      using run by blast
  qed
qed

text \<open>
  C7, as amended. On a store that holds one object per key, rejects no call and is written
  by nothing but the runs, with both clients, buckets and prefixes configured, a positive
  \<open>maxRetries\<close>, a destination prefix without a dollar sign, a source and a destination
  that do not overlap (different buckets, or prefixes neither of which begins with the
  other), no source object stamped later than the clock of the store, no key of the source
  listing translated to \<open>__proto__\<close> or to \<open>hasOwnProperty\<close> and no object of the
  destination listing under the key \<open>hasOwnProperty\<close>: a run returns true, and the run that
  follows it finds \<open>needCopy\<close> and \<open>diff\<close> empty at its first comparison, returns true in the
  world this comparison leaves and writes nothing.
\<close>

theorem sync_twice:
  assumes one: "\<forall>b. distinct (map fst (buckets w b))"
    and ok: "\<forall>n. \<not> rejects w n"
    and cfg: "srcS3 c = Some hsrc" "dstS3 c = Some hdst" "srcBucket c = Some sb"
      "dstBucket c = Some db" "srcPrefix c = Some sp" "dstPrefix c = Some dp"
      "maxRetries c = Some m" "0 < m"
    and plain: "CHR ''$'' \<notin> set dp"
    and apart: "sb \<noteq> db \<or> (\<not> prefix sp dp \<and> \<not> prefix dp sp)"
    and clock: "\<forall>(k, obj) \<in> set (buckets w sb). prefix sp k \<longrightarrow> LastModified obj \<le> now w"
    and translated: "\<forall>(k, obj) \<in> set (buckets w sb). prefix sp k \<and> k \<noteq> ''__proto__'' \<longrightarrow>
        replace k sp dp \<noteq> ''__proto__'' \<and> replace k sp dp \<noteq> ''hasOwnProperty''"
    and own: "prefix dp ''hasOwnProperty'' \<longrightarrow> map_of (buckets w db) ''hasOwnProperty'' = None"
  shows "\<exists>w' w'' cmp.
           startSyncing store_client c w = Some (Inr True, w') \<and>
           compareSrcAndDst store_client c w' = Some (Inr cmp, w'') \<and>
           needCopy cmp = [] \<and> diff cmp = [] \<and>
           startSyncing store_client c w' = Some (Inr True, w'') \<and>
           buckets w'' = buckets w'"
proof -
  have names: "ordinary_keys sp dp (buckets w sb) (buckets w db)"
    unfolding ordinary_keys_def using translated own by simp
  from run_syncs [OF one ok cfg plain names apart clock] obtain w' where
    first: "startSyncing store_client c w = Some (Inr True, w')" and
    inv: "\<forall>b. distinct (map fst (buckets w' b))" "\<forall>n. \<not> rejects w' n" and
    names': "ordinary_keys sp dp (buckets w' sb) (buckets w' db)" and
    sync: "in_sync sp dp (buckets w' sb) (buckets w' db)"
    by blast
  from run_in_sync [OF inv cfg(1-6) plain names' sync] first show ?thesis
    by blast
qed

theorem sync_twice_witness:
  "\<exists>w' w'' cmp.
     startSyncing store_client example_config example_store = Some (Inr True, w') \<and>
     compareSrcAndDst store_client example_config w' = Some (Inr cmp, w'') \<and>
     needCopy cmp = [] \<and> diff cmp = [] \<and>
     startSyncing store_client example_config w' = Some (Inr True, w'') \<and>
     buckets w'' = buckets w'"
proof (rule sync_twice [where ?hsrc = "''src-client''" and ?hdst = "''dst-client''"
          and ?sb = "''source''" and ?db = "''backup''" and ?sp = "''a/''" and ?dp = "''b/''"
          and ?m = 5])
  show "\<forall>b. distinct (map fst (buckets example_store b))"
    by (simp add: example_defs)
  show "\<forall>n. \<not> rejects example_store n"
    by (simp add: example_defs)
  show "\<forall>(k, obj) \<in> set (buckets example_store ''source''). prefix ''a/'' k \<longrightarrow>
          LastModified obj \<le> now example_store"
    by (simp add: example_defs)
  show "''source'' \<noteq> ''backup'' \<or> (\<not> prefix ''a/'' ''b/'' \<and> \<not> prefix ''b/'' ''a/'')"
    by simp
  show "\<forall>(k, obj) \<in> set (buckets example_store ''source''). prefix ''a/'' k \<and> k \<noteq> ''__proto__'' \<longrightarrow>
        replace k ''a/'' ''b/'' \<noteq> ''__proto__'' \<and> replace k ''a/'' ''b/'' \<noteq> ''hasOwnProperty''"
    by (simp add: example_defs replace_def)
  show "prefix ''b/'' ''hasOwnProperty'' \<longrightarrow>
          map_of (buckets example_store ''backup'') ''hasOwnProperty'' = None"
    by simp
qed (simp_all add: example_config_def)

theorem sync_twice_counterexample:
  "rejects example_store = never \<and>
   map_option fst (startSyncing store_client (example_config\<lparr>maxRetries := Some (- 1)\<rparr>)
                     example_store) = Some (Inr False) \<and>
   map_option fst (startSyncing store_client
                     (example_config\<lparr>dstBucket := Some ''source'', dstPrefix := Some ''a/b/''\<rparr>)
                     example_store) = Some (Inr False)"
  by (simp add: sync_defs store_defs example_defs)

end
